theory Spec2Isabelle
  imports Main
begin

section \<open>Mail queue: job data, job options, producer\<close>

text \<open>
  Strings are \<open>string\<close>; timestamps and delays are milliseconds. A
  \<open>Record<string, string>\<close> is the list of its entries in the order
  \<open>Object.entries\<close> yields them; an optional field is an \<open>option\<close>.
\<close>

type_synonym Date = int

text \<open>\<open>MailJobData\<close> and \<open>SendMailDto\<close> carry the same four fields.\<close>

record MailJobData =
  to :: string
  subject :: string
  template :: string
  params :: "(string \<times> string) list option"

type_synonym SendMailDto = MailJobData

record RawMailJobData =
  raw_to :: string
  raw_subject :: string
  htmlContent :: string

datatype JobData = Mail MailJobData | Raw RawMailJobData

datatype BackoffType = exponential | fixed

record BackoffOptions =
  backoff_type :: BackoffType
  backoff_delay :: nat

record JobOptions =
  attempts :: nat
  backoff :: BackoffOptions
  removeOnComplete :: bool
  removeOnFail :: bool

definition MAIL_QUEUE_NAME :: string where
  "MAIL_QUEUE_NAME = ''mail-queue''"

definition SEND_EMAIL :: string where
  "SEND_EMAIL = ''send-email''"

definition DEFAULT_MAIL_JOB_OPTIONS :: JobOptions where
  "DEFAULT_MAIL_JOB_OPTIONS =
     \<lparr>attempts = 5,
      backoff = \<lparr>backoff_type = exponential, backoff_delay = 3000\<rparr>,
      removeOnComplete = True,
      removeOnFail = False\<rparr>"

datatype JobState = waiting | active | completed | failed | delayed

text \<open>
  A job as the queue stores it: what \<open>Queue.add\<close> was given (name, data,
  options) and what the queue runtime keeps for it (attempts made, state, the
  delay before the next attempt, the last error).
\<close>

record Job =
  jobId :: nat
  jobName :: string
  jobData :: JobData
  jobOpts :: JobOptions
  attemptsMade :: nat
  jobState :: JobState
  jobDelay :: nat
  failedReason :: "string option"

text \<open>\<open>configService.get(key) || dflt\<close>: a missing or empty value gives the default.\<close>

definition config_or :: "(string \<rightharpoonup> string) \<Rightarrow> string \<Rightarrow> string \<Rightarrow> string" where
  "config_or config key dflt =
     (case config key of None \<Rightarrow> dflt | Some v \<Rightarrow> if v = [] then dflt else v)"

text \<open>\<open>Queue.add(name, data, opts)\<close>: the new job waits, with no attempt made.\<close>

definition queue_add :: "nat \<Rightarrow> string \<Rightarrow> JobData \<Rightarrow> JobOptions \<Rightarrow> Job" where
  "queue_add i n d opts =
     \<lparr>jobId = i, jobName = n, jobData = d, jobOpts = opts, attemptsMade = 0,
      jobState = waiting, jobDelay = 0, failedReason = None\<rparr>"

section \<open>Users and password reset tokens\<close>

record User =
  uid :: string
  email :: string
  first_name :: string
  password :: string

record PasswordResetToken =
  tid :: string
  userId :: string
  tokenHash :: string
  expiresAt :: Date
  usedAt :: "Date option"
  createdAt :: Date

definition TOKEN_EXPIRATION_MINUTES :: int where
  "TOKEN_EXPIRATION_MINUTES = 15"

text \<open>
  The two methods of \<open>Date\<close> that \<open>requestPasswordReset\<close> calls, as
  ECMAScript defines them. A time value is a number of milliseconds since the
  epoch in UTC; \<open>getMinutes\<close> and \<open>setMinutes\<close> read and write the minutes
  of the local time. \<open>LocalTZA(t, isUTC)\<close>, the offset of the local time
  zone at \<open>t\<close> (read as a UTC time or as a local time), belongs to the host
  and is the parameter \<open>tza\<close>. Time values stay far inside the range that
  \<open>TimeClip\<close> accepts.
\<close>

definition Day :: "int \<Rightarrow> int" where
  "Day t = t div 86400000"

definition HourFromTime :: "int \<Rightarrow> int" where
  "HourFromTime t = (t div 3600000) mod 24"

definition MinFromTime :: "int \<Rightarrow> int" where
  "MinFromTime t = (t div 60000) mod 60"

definition SecFromTime :: "int \<Rightarrow> int" where
  "SecFromTime t = (t div 1000) mod 60"

definition msFromTime :: "int \<Rightarrow> int" where
  "msFromTime t = t mod 1000"

definition MakeTime :: "int \<Rightarrow> int \<Rightarrow> int \<Rightarrow> int \<Rightarrow> int" where
  "MakeTime hour minute sec ms = hour * 3600000 + minute * 60000 + sec * 1000 + ms"

definition MakeDate :: "int \<Rightarrow> int \<Rightarrow> int" where
  "MakeDate day time = day * 86400000 + time"

definition LocalTime :: "(Date \<Rightarrow> bool \<Rightarrow> int) \<Rightarrow> Date \<Rightarrow> int" where
  "LocalTime tza t = t + tza t True"

definition UTC :: "(Date \<Rightarrow> bool \<Rightarrow> int) \<Rightarrow> int \<Rightarrow> Date" where
  "UTC tza t = t - tza t False"

definition getMinutes :: "(Date \<Rightarrow> bool \<Rightarrow> int) \<Rightarrow> Date \<Rightarrow> int" where
  "getMinutes tza d = MinFromTime (LocalTime tza d)"

definition setMinutes :: "(Date \<Rightarrow> bool \<Rightarrow> int) \<Rightarrow> Date \<Rightarrow> int \<Rightarrow> Date" where
  "setMinutes tza d minute =
     (let t = LocalTime tza d
      in UTC tza (MakeDate (Day t)
                    (MakeTime (HourFromTime t) minute (SecFromTime t) (msFromTime t))))"

text \<open>\<open>isValid\<close> of the entity: not used and not yet expired.\<close>

definition isValid :: "Date \<Rightarrow> PasswordResetToken \<Rightarrow> bool" where
  "isValid now t \<longleftrightarrow> usedAt t = None \<and> now < expiresAt t"

text \<open>
  The persistent state: the users table and the \<open>password_reset_tokens\<close>
  table (rows in insertion order), the mail queue and its job id counter.
\<close>

record System =
  users :: "User list"
  tokens :: "PasswordResetToken list"
  mailQueue :: "Job list"
  nextJobId :: nat

text \<open>
  Every awaited call on a repository or on the queue may reject. The statements
  of the three token operations are named, and an operation runs against the set
  of statements that reject during the call. None of the operations opens a
  transaction, so a statement that has run keeps its effect when a later one
  rejects; every operation therefore returns the state it leaves behind together
  with its result.
\<close>

datatype Statement =
  FindUser | InvalidateTokens | SaveToken | QueueAdd
  | FindToken | UpdateUser | MarkUsed

datatype Exception =
  NotFoundException string
  | BadRequestException string
  | QueryFailedError Statement

definition InvalidOrExpiredToken :: Exception where
  "InvalidOrExpiredToken = BadRequestException ''Invalid or expired reset token''"

text \<open>
  What one call takes from outside: the salted password hash
  (\<open>bcrypt.hash(_, 10)\<close>), the configuration, the statements that reject,
  the 32 random bytes in hexadecimal (\<open>crypto.randomBytes(32).toString('hex')\<close>),
  the primary key the database generates for an inserted token, and the clock:
  \<open>clock k\<close> is the value of the \<open>k\<close>-th \<open>new Date()\<close> evaluated during
  the call, \<open>insertedAt\<close> the database time of an insertion, and
  \<open>localTZA\<close> the offset of the host's time zone. The SHA-256 digest
  \<open>hashToken\<close> is the same function in every call, and is the first argument
  \<open>H\<close> of each operation.
\<close>

record Env =
  bcrypt_hash :: "string \<Rightarrow> string"
  config :: "string \<rightharpoonup> string"
  rejects :: "Statement set"
  randomBytes :: string
  generatedId :: string
  clock :: "nat \<Rightarrow> Date"
  insertedAt :: Date
  localTZA :: "Date \<Rightarrow> bool \<Rightarrow> int"

subsection \<open>Mail producer\<close>

definition enqueueMail :: "SendMailDto \<Rightarrow> System \<Rightarrow> System" where
  "enqueueMail dto s =
     (let jobData = \<lparr>to = to dto, subject = subject dto, template = template dto,
                     params = params dto\<rparr>;
          job = queue_add (nextJobId s) SEND_EMAIL (Mail jobData) DEFAULT_MAIL_JOB_OPTIONS
      in s\<lparr>mailQueue := mailQueue s @ [job], nextJobId := Suc (nextJobId s)\<rparr>)"

definition sendPasswordResetEmail ::
  "(string \<rightharpoonup> string) \<Rightarrow> string \<Rightarrow> string \<Rightarrow> string \<Rightarrow> System \<Rightarrow> System" where
  "sendPasswordResetEmail cfg mail firstName resetToken s =
     (let appUrl = config_or cfg ''APP_URL'' ''http://localhost:3000'';
          resetLink = appUrl @ ''/reset-password?token='' @ resetToken
      in enqueueMail
           \<lparr>to = mail,
            subject = ''Reinitialisation de votre mot de passe'',
            template = ''reset-password'',
            params = Some [(''firstName'', firstName), (''resetLink'', resetLink),
                           (''expirationTime'', ''15 minutes'')]\<rparr> s)"

subsection \<open>Token statements\<close>

text \<open>
  \<open>findOne({where: {tokenHash, usedAt: IsNull(), expiresAt: MoreThan(now)}})\<close>:
  the first row that satisfies the three conditions.
\<close>

definition findValidToken :: "string \<Rightarrow> Date \<Rightarrow> PasswordResetToken list \<Rightarrow> PasswordResetToken option" where
  "findValidToken h now ts =
     find (\<lambda>t. tokenHash t = h \<and> usedAt t = None \<and> now < expiresAt t) ts"

text \<open>
  \<open>invalidatePreviousTokens(userId, excludeTokenId?)\<close>: one UPDATE that sets
  \<open>used_at\<close> on the rows of the user that have none, except the excluded id.
  The exclusion is added under \<open>if (excludeTokenId)\<close>, which an absent and an
  empty id both fail.
\<close>

definition invalidatePreviousTokens ::
  "Date \<Rightarrow> string \<Rightarrow> string option \<Rightarrow> PasswordResetToken list \<Rightarrow> PasswordResetToken list" where
  "invalidatePreviousTokens now u excludeTokenId ts =
     map (\<lambda>t. if userId t = u \<and> usedAt t = None
                  \<and> (case excludeTokenId of None \<Rightarrow> True
                       | Some x \<Rightarrow> x = [] \<or> tid t \<noteq> x)
               then t\<lparr>usedAt := Some now\<rparr> else t) ts"

text \<open>\<open>repository.update(id, {usedAt})\<close>: the rows with that primary key.\<close>

definition markTokenUsed :: "Date \<Rightarrow> string \<Rightarrow> PasswordResetToken list \<Rightarrow> PasswordResetToken list" where
  "markTokenUsed now i ts = map (\<lambda>t. if tid t = i then t\<lparr>usedAt := Some now\<rparr> else t) ts"

text \<open>\<open>userRepository.update(id, {password})\<close>: no row, no change.\<close>

definition updatePassword :: "string \<Rightarrow> string \<Rightarrow> User list \<Rightarrow> User list" where
  "updatePassword u hashed us = map (\<lambda>usr. if uid usr = u then usr\<lparr>password := hashed\<rparr> else usr) us"

text \<open>\<open>userRepository.findOne({where: {id}})\<close>.\<close>

definition findUser :: "string \<Rightarrow> User list \<Rightarrow> User option" where
  "findUser u us = find (\<lambda>usr. uid usr = u) us"

text \<open>
  \<open>repository.save\<close> of a new token: an INSERT, which the primary key
  constraint rejects when the generated id is already in the table.
\<close>

definition saveToken :: "PasswordResetToken \<Rightarrow> PasswordResetToken list \<Rightarrow> PasswordResetToken list option" where
  "saveToken t ts = (if tid t \<in> tid ` set ts then None else Some (ts @ [t]))"

subsection \<open>The three token operations\<close>

text \<open>
  \<open>requestPasswordReset(userId)\<close>: the spec's \<open>issue\<close>. The expiry is
  \<open>new Date()\<close> after \<open>setMinutes(getMinutes() + TOKEN_EXPIRATION_MINUTES)\<close>.
\<close>

definition requestPasswordReset ::
  "(string \<Rightarrow> string) \<Rightarrow> Env \<Rightarrow> string \<Rightarrow> System \<Rightarrow> (Exception + unit) \<times> System" where
  "requestPasswordReset H env u s =
     (if FindUser \<in> rejects env then (Inl (QueryFailedError FindUser), s)
      else case findUser u (users s) of
        None \<Rightarrow> (Inl (NotFoundException ''User not found''), s)
      | Some user \<Rightarrow>
          if InvalidateTokens \<in> rejects env then (Inl (QueryFailedError InvalidateTokens), s)
          else
            let s1 = s\<lparr>tokens := invalidatePreviousTokens (clock env 0) u None (tokens s)\<rparr>;
                plainToken = randomBytes env;
                date = clock env 1;
                resetToken =
                  \<lparr>tid = generatedId env, userId = uid user, tokenHash = H plainToken,
                   expiresAt = setMinutes (localTZA env) date
                                 (getMinutes (localTZA env) date + TOKEN_EXPIRATION_MINUTES),
                   usedAt = None, createdAt = insertedAt env\<rparr>
            in if SaveToken \<in> rejects env then (Inl (QueryFailedError SaveToken), s1)
               else case saveToken resetToken (tokens s1) of
                 None \<Rightarrow> (Inl (QueryFailedError SaveToken), s1)
               | Some ts \<Rightarrow>
                   let s2 = s1\<lparr>tokens := ts\<rparr>
                   in if QueueAdd \<in> rejects env then (Inl (QueryFailedError QueueAdd), s2)
                      else (Inr (),
                            sendPasswordResetEmail (config env) (email user) (first_name user)
                              plainToken s2))"

record ResetPasswordDto =
  token :: string
  newPassword :: string

text \<open>\<open>resetPassword(dto)\<close>: the spec's \<open>consume\<close>.\<close>

definition resetPassword ::
  "(string \<Rightarrow> string) \<Rightarrow> Env \<Rightarrow> ResetPasswordDto \<Rightarrow> System \<Rightarrow> (Exception + unit) \<times> System" where
  "resetPassword H env dto s =
     (if FindToken \<in> rejects env then (Inl (QueryFailedError FindToken), s)
      else case findValidToken (H (token dto)) (clock env 0) (tokens s) of
        None \<Rightarrow> (Inl InvalidOrExpiredToken, s)
      | Some resetToken \<Rightarrow>
          let hashedPassword = bcrypt_hash env (newPassword dto)
          in if UpdateUser \<in> rejects env then (Inl (QueryFailedError UpdateUser), s)
             else
               let s1 = s\<lparr>users := updatePassword (userId resetToken) hashedPassword (users s)\<rparr>
               in if MarkUsed \<in> rejects env then (Inl (QueryFailedError MarkUsed), s1)
                  else
                    let s2 = s1\<lparr>tokens := markTokenUsed (clock env 1) (tid resetToken) (tokens s1)\<rparr>
                    in if InvalidateTokens \<in> rejects env
                       then (Inl (QueryFailedError InvalidateTokens), s2)
                       else (Inr (),
                             s2\<lparr>tokens := invalidatePreviousTokens (clock env 2)
                                   (userId resetToken) (Some (tid resetToken)) (tokens s2)\<rparr>))"

text \<open>\<open>validateResetToken(token)\<close>: the spec's \<open>validate\<close>.\<close>

definition validateResetToken ::
  "(string \<Rightarrow> string) \<Rightarrow> Env \<Rightarrow> string \<Rightarrow> System \<Rightarrow> (Exception + bool) \<times> System" where
  "validateResetToken H env tok s =
     (if FindToken \<in> rejects env then (Inl (QueryFailedError FindToken), s)
      else (Inr (findValidToken (H tok) (clock env 0) (tokens s) \<noteq> None), s))"

text \<open>
  Requests served one after the other, each with its own environment; only the
  state a request leaves behind is passed on.
\<close>

datatype Request =
  RequestPasswordReset string
  | ResetPassword ResetPasswordDto
  | ValidateResetToken string

fun serve :: "(string \<Rightarrow> string) \<Rightarrow> Env \<times> Request \<Rightarrow> System \<Rightarrow> System" where
  "serve H (env, RequestPasswordReset u) s = snd (requestPasswordReset H env u s)"
| "serve H (env, ResetPassword dto) s = snd (resetPassword H env dto s)"
| "serve H (env, ValidateResetToken tok) s = snd (validateResetToken H env tok s)"

fun serve_all :: "(string \<Rightarrow> string) \<Rightarrow> (Env \<times> Request) list \<Rightarrow> System \<Rightarrow> System" where
  "serve_all H [] s = s"
| "serve_all H (r # rs) s = serve_all H rs (serve H r s)"

text \<open>
  Calls in flight. A call of \<open>requestPasswordReset\<close> hands control back at
  each of its four \<open>await\<close>s, and statements of other calls may run before
  it goes on. A call in flight is about to run one of its four statements,
  holding the local variables it has then, or has returned. \<open>resume\<close> runs a
  call from where it stands to its next \<open>await\<close>; \<open>interleave\<close> resumes
  the calls in flight in the order of a schedule, which names the call to go on
  by its position.
\<close>

datatype Pending =
  AwaitFindUser string
  | AwaitInvalidate string User
  | AwaitSave User
  | AwaitQueueAdd User
  | Returned "Exception + unit"

fun resume :: "(string \<Rightarrow> string) \<Rightarrow> Env \<Rightarrow> Pending \<Rightarrow> System \<Rightarrow> Pending \<times> System" where
  "resume H env (AwaitFindUser u) s =
     (if FindUser \<in> rejects env then (Returned (Inl (QueryFailedError FindUser)), s)
      else case findUser u (users s) of
        None \<Rightarrow> (Returned (Inl (NotFoundException ''User not found'')), s)
      | Some user \<Rightarrow> (AwaitInvalidate u user, s))"
| "resume H env (AwaitInvalidate u user) s =
     (if InvalidateTokens \<in> rejects env then (Returned (Inl (QueryFailedError InvalidateTokens)), s)
      else (AwaitSave user,
            s\<lparr>tokens := invalidatePreviousTokens (clock env 0) u None (tokens s)\<rparr>))"
| "resume H env (AwaitSave user) s =
     (let plainToken = randomBytes env;
          date = clock env 1;
          resetToken =
            \<lparr>tid = generatedId env, userId = uid user, tokenHash = H plainToken,
             expiresAt = setMinutes (localTZA env) date
                           (getMinutes (localTZA env) date + TOKEN_EXPIRATION_MINUTES),
             usedAt = None, createdAt = insertedAt env\<rparr>
      in if SaveToken \<in> rejects env then (Returned (Inl (QueryFailedError SaveToken)), s)
         else case saveToken resetToken (tokens s) of
           None \<Rightarrow> (Returned (Inl (QueryFailedError SaveToken)), s)
         | Some ts \<Rightarrow> (AwaitQueueAdd user, s\<lparr>tokens := ts\<rparr>))"
| "resume H env (AwaitQueueAdd user) s =
     (if QueueAdd \<in> rejects env then (Returned (Inl (QueryFailedError QueueAdd)), s)
      else (Returned (Inr ()),
            sendPasswordResetEmail (config env) (email user) (first_name user)
              (randomBytes env) s))"
| "resume H env (Returned r) s = (Returned r, s)"

fun interleave ::
  "(string \<Rightarrow> string) \<Rightarrow> (Env \<times> Pending) list \<Rightarrow> nat list \<Rightarrow> System
     \<Rightarrow> (Env \<times> Pending) list \<times> System" where
  "interleave H calls [] s = (calls, s)"
| "interleave H calls (i # schedule) s =
     (if i < length calls then
        (case resume H (fst (calls ! i)) (snd (calls ! i)) s of
           (p, s') \<Rightarrow> interleave H (calls[i := (fst (calls ! i), p)]) schedule s')
      else interleave H calls schedule s)"

section \<open>Mail processor\<close>

subsection \<open>The two regular expressions of \<open>loadTemplate\<close>\<close>

text \<open>
  Characters are the 8-bit characters of \<open>string\<close>. The classes \<open>\s\<close> and
  \<open>\w\<close> of a RegExp without the \<open>u\<close> flag, on these characters: \<open>\s\<close> is
  tab, line feed, vertical tab, form feed, carriage return, space and the
  no-break space; \<open>\w\<close> is \<open>[A-Za-z0-9_]\<close>.
\<close>

definition is_space :: "char \<Rightarrow> bool" where
  "is_space c \<longleftrightarrow> (of_char c :: nat) \<in> {9, 10, 11, 12, 13, 32, 160}"

definition is_word :: "char \<Rightarrow> bool" where
  "is_word c \<longleftrightarrow>
     (let n = (of_char c :: nat)
      in (48 \<le> n \<and> n \<le> 57) \<or> (65 \<le> n \<and> n \<le> 90) \<or> n = 95 \<or> (97 \<le> n \<and> n \<le> 122))"

text \<open>
  A matcher tells, for the text at the current position, how many characters
  the pattern matches there, if it matches.

  \<open>/{{\s*\w+\s*}}/\<close> at the current position. The three runs are taken
  greedily; since no character is in two of the classes \<open>\s\<close>, \<open>\w\<close> and
  \<open>}\<close>, giving a character back never turns a failure into a match.
\<close>

definition match_unreplaced :: "string \<Rightarrow> nat option" where
  "match_unreplaced s =
     (if take 2 s = ''{{'' then
        let r = drop 2 s;
            a = length (takeWhile is_space r);
            r1 = drop a r;
            w = length (takeWhile is_word r1);
            r2 = drop w r1;
            b = length (takeWhile is_space r2)
        in if 0 < w \<and> take 2 (drop b r2) = ''}}'' then Some (2 + a + w + b + 2) else None
      else None)"

text \<open>
  \<open>new RegExp(`{{\\s*${key}\\s*}}`, 'g')\<close> for a key that the RegExp grammar
  reads as a sequence of literal characters, at the current position. The key
  may begin with white space, so the first \<open>\s*\<close> gives characters back one
  at a time until the key and the rest match.
\<close>

definition after_key :: "string \<Rightarrow> string \<Rightarrow> nat option" where
  "after_key key r =
     (if take (length key) r = key then
        let r1 = drop (length key) r;
            b = length (takeWhile is_space r1)
        in if take 2 (drop b r1) = ''}}'' then Some (length key + b + 2) else None
      else None)"

fun backtrack :: "string \<Rightarrow> string \<Rightarrow> nat \<Rightarrow> nat option" where
  "backtrack key r 0 = after_key key r"
| "backtrack key r (Suc a) =
     (case after_key key (drop (Suc a) r) of
        Some n \<Rightarrow> Some (Suc a + n)
      | None \<Rightarrow> backtrack key r a)"

definition match_key :: "string \<Rightarrow> string \<Rightarrow> nat option" where
  "match_key key s =
     (if take 2 s = ''{{'' then
        let r = drop 2 s
        in map_option (\<lambda>n. 2 + n) (backtrack key r (length (takeWhile is_space r)))
      else None)"

text \<open>
  The characters that the RegExp grammar does not read as themselves; a key
  without any of them is a literal pattern.
\<close>

definition regexp_syntax_characters :: "char list" where
  "regexp_syntax_characters =
     [CHR 0x5C, CHR ''^'', CHR ''$'', CHR ''.'', CHR ''*'', CHR ''+'', CHR ''?'',
      CHR ''('', CHR '')'', CHR ''['', CHR '']'', CHR ''{'', CHR ''}'', CHR ''|'']"

definition literal_key :: "string \<Rightarrow> bool" where
  "literal_key key \<longleftrightarrow> (\<forall>c\<in>set key. c \<notin> set regexp_syntax_characters)"

subsection \<open>\<open>String.prototype.replace\<close> with a global RegExp\<close>

text \<open>
  The replacement text of one match, for a pattern without capture groups:
  \<open>$$\<close> is a dollar sign, \<open>$&\<close> the matched text, \<open>$`\<close> the text before the
  match and \<open>$'\<close> the text after it; every other character, and a dollar sign
  before anything else, stands for itself.
\<close>

fun expand :: "string \<Rightarrow> string \<Rightarrow> string \<Rightarrow> string \<Rightarrow> string" where
  "expand scanned matched rest [] = []"
| "expand scanned matched rest [c] = [c]"
| "expand scanned matched rest (c # d # r) =
     (if c = CHR ''$'' then
        (if d = CHR ''$'' then CHR ''$'' # expand scanned matched rest r
         else if d = CHR ''&'' then matched @ expand scanned matched rest r
         else if d = CHR 0x60 then scanned @ expand scanned matched rest r
         else if d = CHR 0x27 then rest @ expand scanned matched rest r
         else c # expand scanned matched rest (d # r))
      else c # expand scanned matched rest (d # r))"

text \<open>
  \<open>text.replace(regex, replacement)\<close> for a global regex: the text is scanned
  from the left, every match is replaced and the scan goes on behind it; after
  an empty match the next character is copied. \<open>scanned\<close> is the text
  already gone through.
\<close>

fun gsub :: "(string \<Rightarrow> nat option) \<Rightarrow> string \<Rightarrow> string \<Rightarrow> string \<Rightarrow> string" where
  "gsub m replacement scanned [] =
     (case m [] of None \<Rightarrow> [] | Some _ \<Rightarrow> expand scanned [] [] replacement)"
| "gsub m replacement scanned (c # cs) =
     (case m (c # cs) of
        None \<Rightarrow> c # gsub m replacement (scanned @ [c]) cs
      | Some 0 \<Rightarrow>
          expand scanned [] (c # cs) replacement @ c # gsub m replacement (scanned @ [c]) cs
      | Some (Suc n) \<Rightarrow>
          expand scanned (take (Suc n) (c # cs)) (drop n cs) replacement
            @ gsub m replacement (scanned @ take (Suc n) (c # cs)) (drop n cs))"

definition removeUnreplaced :: "string \<Rightarrow> string" where
  "removeUnreplaced html = gsub match_unreplaced [] [] html"

subsection \<open>The processor\<close>

text \<open>
  A thrown JavaScript error, by its class. The processor throws plain
  \<open>Error\<close>s only; \<open>UnrecoverableError\<close> is the class by which the queue
  library lets a processor ask for no retry.
\<close>

datatype JsError = Error string | UnrecoverableError string

fun message :: "JsError \<Rightarrow> string" where
  "message (Error m) = m"
| "message (UnrecoverableError m) = m"

record BrevoEmailPayload =
  sender_name :: string
  sender_email :: string
  to_email :: string
  payload_subject :: string
  payload_htmlContent :: string

text \<open>
  An \<open>AxiosError\<close>: its message and, when the provider answered, the status
  and the JSON text of the response body.
\<close>

record AxiosError =
  error_message :: string
  response :: "(nat \<times> string) option"

text \<open>
  What an attempt finds outside the processor: the template files by name
  (\<open>None\<close> when \<open>readFile\<close> rejects), the provider's answer to a POST, and
  the result of \<open>html.replace(new RegExp(..., 'g'), value)\<close> for a key that
  holds RegExp syntax characters (\<open>None\<close> when the constructor throws a
  \<open>SyntaxError\<close>); the pattern such a key builds is left to the engine.
\<close>

record World =
  templates :: "string \<rightharpoonup> string"
  httpPost :: "BrevoEmailPayload \<Rightarrow> AxiosError + unit"
  regexpReplace :: "string \<Rightarrow> string \<Rightarrow> string \<Rightarrow> string option"

text \<open>The fields \<open>onModuleInit\<close> sets from the configuration.\<close>

record MailProcessor =
  apiKey :: string
  senderEmail :: string
  senderName :: string

definition onModuleInit :: "(string \<rightharpoonup> string) \<Rightarrow> MailProcessor" where
  "onModuleInit cfg =
     \<lparr>apiKey = config_or cfg ''BREVO_API_KEY'' [],
      senderEmail = config_or cfg ''BREVO_SENDER_EMAIL'' ''no-reply@example.com'',
      senderName = config_or cfg ''BREVO_SENDER_NAME'' ''Application''\<rparr>"

text \<open>What an attempt does to the outside, in order.\<close>

datatype Effect = ReadFile string | HttpPost BrevoEmailPayload

text \<open>The loop over \<open>Object.entries(params)\<close>; \<open>None\<close> when a RegExp constructor throws.\<close>

fun replaceVariables :: "World \<Rightarrow> (string \<times> string) list \<Rightarrow> string \<Rightarrow> string option" where
  "replaceVariables w [] html = Some html"
| "replaceVariables w ((key, val) # ps) html =
     (case (if literal_key key then Some (gsub (match_key key) val [] html)
            else regexpReplace w key val html) of
        None \<Rightarrow> None
      | Some html' \<Rightarrow> replaceVariables w ps html')"

definition templateNotFound :: "string \<Rightarrow> JsError" where
  "templateNotFound templateName =
     Error (''Email template '' @ [CHR 0x27] @ templateName @ [CHR 0x27] @ '' not found'')"

text \<open>
  \<open>loadTemplate\<close>: whatever is thrown inside the \<open>try\<close> block, by
  \<open>readFile\<close> or by a RegExp constructor, is caught and thrown again as the
  same "not found" error.
\<close>

definition loadTemplate :: "World \<Rightarrow> string \<Rightarrow> (string \<times> string) list option \<Rightarrow> JsError + string" where
  "loadTemplate w templateName ps =
     (case templates w templateName of
        None \<Rightarrow> Inl (templateNotFound templateName)
      | Some content \<Rightarrow>
          (case replaceVariables w (case ps of None \<Rightarrow> [] | Some entries \<Rightarrow> entries) content of
             None \<Rightarrow> Inl (templateNotFound templateName)
           | Some html \<Rightarrow> Inr (removeUnreplaced html)))"

definition handleBrevoError :: "AxiosError \<Rightarrow> JsError" where
  "handleBrevoError err =
     (let status = map_option fst (response err)
      in if status = Some 429 then Error ''Email rate limit exceeded. Will retry.''
         else if status = Some 401 then Error ''Email service authentication failed.''
         else if status = Some 400
           then Error (''Invalid email request: '' @ (case response err of None \<Rightarrow> [] | Some r \<Rightarrow> snd r))
         else Error (''Failed to send email: '' @ error_message err))"

definition sendViaBrevo ::
  "MailProcessor \<Rightarrow> World \<Rightarrow> string \<Rightarrow> string \<Rightarrow> string \<Rightarrow> (JsError + unit) \<times> Effect list" where
  "sendViaBrevo p w recipient subj html =
     (if apiKey p = [] then
        (Inl (Error ''Email service is not configured. Missing BREVO_API_KEY.''), [])
      else
        let payload = \<lparr>sender_name = senderName p, sender_email = senderEmail p,
                        to_email = recipient, payload_subject = subj,
                        payload_htmlContent = html\<rparr>
        in case httpPost w payload of
             Inr _ \<Rightarrow> (Inr (), [HttpPost payload])
           | Inl err \<Rightarrow> (Inl (handleBrevoError err), [HttpPost payload]))"

text \<open>
  \<open>handleSendEmail\<close> reads the job data as \<open>MailJobData\<close>; on raw data the
  fields \<open>template\<close> and \<open>params\<close> are undefined, and the template name
  prints as \<open>undefined\<close>.
\<close>

fun asMailJobData :: "JobData \<Rightarrow> MailJobData" where
  "asMailJobData (Mail d) = d"
| "asMailJobData (Raw r) =
     \<lparr>to = raw_to r, subject = raw_subject r, template = ''undefined'', params = None\<rparr>"

definition handleSendEmail :: "MailProcessor \<Rightarrow> World \<Rightarrow> Job \<Rightarrow> (JsError + unit) \<times> Effect list" where
  "handleSendEmail p w job =
     (let d = asMailJobData (jobData job)
      in case loadTemplate w (template d) (params d) of
           Inl e \<Rightarrow> (Inl e, [ReadFile (template d)])
         | Inr html \<Rightarrow>
             (case sendViaBrevo p w (to d) (subject d) html of
                (r, effects) \<Rightarrow> (r, ReadFile (template d) # effects)))"

definition process :: "MailProcessor \<Rightarrow> World \<Rightarrow> Job \<Rightarrow> (JsError + unit) \<times> Effect list" where
  "process p w job =
     (if jobName job = SEND_EMAIL then handleSendEmail p w job else (Inr (), []))"

subsection \<open>The queue runtime\<close>

text \<open>
  Modelled from the spec: the queue runtime, which hands a job to \<open>process\<close>
  and settles it from the outcome, belongs to the queue library and is not among
  the sources; only the job options it reads are
  (\<open>DEFAULT_MAIL_JOB_OPTIONS\<close>). Sections 3, 4.4 and 4.5 of the specification:
  a job whose attempt returns is \<open>completed\<close> and purged; a job whose attempt
  throws a retryable error, with fewer than \<open>maxAttempts\<close> attempts made, is
  \<open>delayed\<close> and attempt \<open>n\<close> is retried after \<open>delay * 2^(n-1)\<close>;
  otherwise the job is \<open>failed\<close>, its last error recorded, and retained. The
  purge of a completed job and the retention of a failed one are read from the
  job's options. An error is retryable unless the processor has thrown it as an
  \<open>UnrecoverableError\<close>: the processor's own comment on
  \<open>handleBrevoError\<close> reads "Throws error to trigger job retry", and
  \<open>onFailed\<close> reports \<open>attemptsMade\<close> as the number of attempts a failed job
  has had. \<open>attemptsMade\<close> counts the attempts that have ended.
\<close>

fun retryable :: "JsError \<Rightarrow> bool" where
  "retryable (Error m) = True"
| "retryable (UnrecoverableError m) = False"

definition backoffDelay :: "BackoffOptions \<Rightarrow> nat \<Rightarrow> nat" where
  "backoffDelay b n =
     (case backoff_type b of
        exponential \<Rightarrow> backoff_delay b * 2 ^ (n - 1)
      | fixed \<Rightarrow> backoff_delay b)"

definition settle :: "Job \<Rightarrow> JsError + unit \<Rightarrow> Job option" where
  "settle job outcome =
     (let n = Suc (attemptsMade job)
      in case outcome of
           Inr _ \<Rightarrow>
             if removeOnComplete (jobOpts job) then None
             else Some (job\<lparr>attemptsMade := n, jobState := completed\<rparr>)
         | Inl e \<Rightarrow>
             if retryable e \<and> n < attempts (jobOpts job) then
               Some (job\<lparr>attemptsMade := n, jobState := delayed,
                         jobDelay := backoffDelay (backoff (jobOpts job)) n,
                         failedReason := Some (message e)\<rparr>)
             else if removeOnFail (jobOpts job) then None
             else Some (job\<lparr>attemptsMade := n, jobState := failed,
                             failedReason := Some (message e)\<rparr>))"

text \<open>
  One attempt: the job is handed to \<open>process\<close> and settled. \<open>None\<close> is a
  job that is no longer stored.
\<close>

definition attempt :: "MailProcessor \<Rightarrow> World \<Rightarrow> Job \<Rightarrow> Job option" where
  "attempt p w job = settle job (fst (process p w job))"

text \<open>
  Up to \<open>k\<close> attempts on one job, as long as it waits or is delayed; the
  attempt after \<open>n\<close> ended attempts finds the world \<open>ws n\<close>.
\<close>

fun work :: "MailProcessor \<Rightarrow> (nat \<Rightarrow> World) \<Rightarrow> nat \<Rightarrow> Job \<Rightarrow> Job option" where
  "work p ws 0 job = Some job"
| "work p ws (Suc k) job =
     (if jobState job = waiting \<or> jobState job = delayed then
        (case attempt p (ws (attemptsMade job)) job of
           None \<Rightarrow> None
         | Some job' \<Rightarrow> work p ws k job')
      else Some job)"

text \<open>The worker on the stored jobs: each is given up to \<open>k\<close> attempts.\<close>

definition runWorker :: "MailProcessor \<Rightarrow> (nat \<Rightarrow> World) \<Rightarrow> nat \<Rightarrow> Job list \<Rightarrow> Job list" where
  "runWorker p ws k q = concat (map (\<lambda>job. case work p ws k job of None \<Rightarrow> [] | Some job' \<Rightarrow> [job']) q)"

text \<open>\<open>getQueueStatus\<close>: the number of stored jobs in each state.\<close>

record QueueStatus =
  waitingCount :: nat
  activeCount :: nat
  completedCount :: nat
  failedCount :: nat
  delayedCount :: nat

definition countState :: "JobState \<Rightarrow> Job list \<Rightarrow> nat" where
  "countState st q = length (filter (\<lambda>job. jobState job = st) q)"

definition getQueueStatus :: "Job list \<Rightarrow> QueueStatus" where
  "getQueueStatus q =
     \<lparr>waitingCount = countState waiting q, activeCount = countState active q,
      completedCount = countState completed q, failedCount = countState failed q,
      delayedCount = countState delayed q\<rparr>"

section \<open>Definitions used to state the properties\<close>

text \<open>
  The lookup predicate in the words of the specification: a stored token with
  the digest of the secret that is unconsumed and not expired.
\<close>

definition spec_lookup :: "(string \<Rightarrow> string) \<Rightarrow> string \<Rightarrow> Date \<Rightarrow> PasswordResetToken list \<Rightarrow> bool" where
  "spec_lookup H secret now ts \<longleftrightarrow>
     list_ex (\<lambda>t. tokenHash t = H secret \<and> usedAt t = None \<and> now < expiresAt t) ts"

text \<open>The expiry that a call of \<open>requestPasswordReset\<close> gives its token.\<close>

definition issuedExpiry :: "Env \<Rightarrow> Date" where
  "issuedExpiry env =
     setMinutes (localTZA env) (clock env 1)
       (getMinutes (localTZA env) (clock env 1) + TOKEN_EXPIRATION_MINUTES)"

text \<open>
  The unconsumed tokens of an owner, and the valid ones at a time (the entity's
  \<open>isValid\<close>); the state of the token table in which no owner has two
  unconsumed tokens; and the state in which every token with a given digest is
  consumed.
\<close>

definition unusedOf :: "string \<Rightarrow> PasswordResetToken list \<Rightarrow> PasswordResetToken list" where
  "unusedOf u ts = filter (\<lambda>t. userId t = u \<and> usedAt t = None) ts"

definition validOf :: "Date \<Rightarrow> string \<Rightarrow> PasswordResetToken list \<Rightarrow> PasswordResetToken list" where
  "validOf now u ts = filter (\<lambda>t. userId t = u \<and> isValid now t) ts"

definition oneUnusedPerOwner :: "PasswordResetToken list \<Rightarrow> bool" where
  "oneUnusedPerOwner ts \<longleftrightarrow> (\<forall>u. length (unusedOf u ts) \<le> 1)"

definition digestConsumed :: "string \<Rightarrow> PasswordResetToken list \<Rightarrow> bool" where
  "digestConsumed h ts \<longleftrightarrow> (\<forall>t\<in>set ts. tokenHash t = h \<longrightarrow> usedAt t \<noteq> None)"

subsection \<open>Templates as pieces\<close>

text \<open>
  Templates as the specification speaks of them: a sequence of pieces, each a
  stretch of text or a placeholder \<open>{{key}}\<close>, the key possibly padded with
  white space. A placeholder is well formed when the padding is white space and
  the key holds no brace and neither begins nor ends with white space; a stretch
  of text is well formed when it holds no opening brace.
\<close>

definition word_key :: "string \<Rightarrow> bool" where
  "word_key k \<longleftrightarrow> k \<noteq> [] \<and> (\<forall>c\<in>set k. is_word c)"

datatype Piece = Text string | Hole string string string

fun unparse :: "Piece \<Rightarrow> string" where
  "unparse (Text t) = t"
| "unparse (Hole a k b) = ''{{'' @ a @ k @ b @ ''}}''"

fun well_formed :: "Piece \<Rightarrow> bool" where
  "well_formed (Text t) \<longleftrightarrow> CHR ''{'' \<notin> set t"
| "well_formed (Hole a k b) \<longleftrightarrow>
     (\<forall>c\<in>set a. is_space c) \<and> (\<forall>c\<in>set b. is_space c)
     \<and> CHR ''{'' \<notin> set k \<and> CHR ''}'' \<notin> set k
     \<and> (k = [] \<or> (\<not> is_space (hd k) \<and> \<not> is_space (last k)))"

text \<open>
  \<open>render_spec\<close> is the rendering in the words of the specification, with the
  one restriction the code makes: a placeholder whose key is in the mapping is
  replaced by the value; any other placeholder is removed when its key is a word
  (one or more characters of \<open>[A-Za-z0-9_]\<close>) and stays as it is written
  when it is not.
\<close>

fun render_piece :: "(string \<times> string) list \<Rightarrow> Piece \<Rightarrow> string" where
  "render_piece ps (Text t) = t"
| "render_piece ps (Hole a k b) =
     (case map_of ps k of
        Some v \<Rightarrow> v
      | None \<Rightarrow> if word_key k then [] else unparse (Hole a k b))"

definition render_spec :: "(string \<times> string) list \<Rightarrow> Piece list \<Rightarrow> string" where
  "render_spec ps pieces = concat (map (render_piece ps) pieces)"

text \<open>
  One substitution step on the pieces, all steps of a mapping, and what the
  cleanup makes of a piece.
\<close>

fun subst_piece :: "string \<Rightarrow> string \<Rightarrow> Piece \<Rightarrow> Piece" where
  "subst_piece k v (Text t) = Text t"
| "subst_piece k v (Hole a k' b) = (if k' = k then Text v else Hole a k' b)"

fun substitute_pieces :: "(string \<times> string) list \<Rightarrow> Piece list \<Rightarrow> Piece list" where
  "substitute_pieces [] pieces = pieces"
| "substitute_pieces ((k, v) # ps) pieces = substitute_pieces ps (map (subst_piece k v) pieces)"

fun cleaned :: "Piece \<Rightarrow> string" where
  "cleaned (Text t) = t"
| "cleaned (Hole a k b) = (if word_key k then [] else unparse (Hole a k b))"

text \<open>
  The templates, keys and values on which the rendering is the specification's.
  The pieces of a template need well-formed placeholders only; the text between
  them may hold braces. A text is \<open>quiet\<close> when it nowhere holds two
  opening braces in a row, and the runs of a sequence of pieces, the stretches
  of text between one placeholder and the next, are quiet when each of them is:
  then two opening braces in a row occur only where a placeholder begins. A key
  is \<open>trimmed\<close> when it neither begins nor ends with white space. A value is
  plain when it holds none of the replacement patterns \<open>$$\<close>, \<open>$&\<close>,
  \<open>$`\<close> and \<open>$'\<close>. \<open>core\<close> strips the white space around a text.
\<close>

fun quiet :: "string \<Rightarrow> bool" where
  "quiet (c # d # r) \<longleftrightarrow> \<not> (c = CHR ''{'' \<and> d = CHR ''{'') \<and> quiet (d # r)"
| "quiet r \<longleftrightarrow> True"

fun plain_value :: "string \<Rightarrow> bool" where
  "plain_value (c # d # r) \<longleftrightarrow>
     \<not> (c = CHR ''$'' \<and> (d = CHR ''$'' \<or> d = CHR ''&'' \<or> d = CHR 0x60 \<or> d = CHR 0x27))
     \<and> plain_value (d # r)"
| "plain_value r \<longleftrightarrow> True"

definition trimmed :: "string \<Rightarrow> bool" where
  "trimmed k \<longleftrightarrow> k = [] \<or> (\<not> is_space (hd k) \<and> \<not> is_space (last k))"

definition core :: "string \<Rightarrow> string" where
  "core x = rev (dropWhile is_space (rev (dropWhile is_space x)))"

fun placeholder :: "Piece \<Rightarrow> bool" where
  "placeholder (Text t) \<longleftrightarrow> True"
| "placeholder (Hole a k b) \<longleftrightarrow> well_formed (Hole a k b)"

fun head_run :: "Piece list \<Rightarrow> string" where
  "head_run [] = []"
| "head_run (Text t # pieces) = t @ head_run pieces"
| "head_run (Hole a k b # pieces) = []"

fun runs_quiet :: "Piece list \<Rightarrow> bool" where
  "runs_quiet [] \<longleftrightarrow> True"
| "runs_quiet (Text t # pieces) \<longleftrightarrow> quiet (t @ head_run pieces) \<and> runs_quiet pieces"
| "runs_quiet (Hole a k b # pieces) \<longleftrightarrow> quiet (head_run pieces) \<and> runs_quiet pieces"

subsection \<open>Failing attempts\<close>

text \<open>
  A delivery call that fails: the processor is configured, the template renders,
  and the provider's answer to the POST is an error.
\<close>

definition deliveryFails :: "MailProcessor \<Rightarrow> World \<Rightarrow> MailJobData \<Rightarrow> bool" where
  "deliveryFails p w d \<longleftrightarrow>
     apiKey p \<noteq> [] \<and>
     (case loadTemplate w (template d) (params d) of
        Inl e \<Rightarrow> False
      | Inr html \<Rightarrow>
          (case httpPost w \<lparr>sender_name = senderName p, sender_email = senderEmail p,
                             to_email = to d, payload_subject = subject d,
                             payload_htmlContent = html\<rparr> of
             Inl err \<Rightarrow> True
           | Inr u \<Rightarrow> False))"

text \<open>The message of the error an attempt ends with.\<close>

definition failureMessage :: "MailProcessor \<Rightarrow> World \<Rightarrow> Job \<Rightarrow> string" where
  "failureMessage p w job = (case fst (process p w job) of Inl e \<Rightarrow> message e | Inr u \<Rightarrow> [])"

text \<open>
  A job of the default options after \<open>k \<ge> 1\<close> attempts that all failed
  with a retryable error.
\<close>

definition afterFailures :: "MailProcessor \<Rightarrow> (nat \<Rightarrow> World) \<Rightarrow> Job \<Rightarrow> nat \<Rightarrow> Job" where
  "afterFailures p ws job k =
     job\<lparr>attemptsMade := min k 5,
         jobState := (if k < 5 then delayed else failed),
         jobDelay := 3000 * 2 ^ (min k 4 - 1),
         failedReason := Some (failureMessage p (ws (min k 5 - 1)) job)\<rparr>"

subsection \<open>An example state\<close>

definition exampleHash :: "string \<Rightarrow> string" where
  "exampleHash x = ''sha256:'' @ x"

definition exampleEnv :: Env where
  "exampleEnv =
     \<lparr>bcrypt_hash = (\<lambda>p. ''bcrypt:'' @ p), config = Map.empty, rejects = {},
      randomBytes = ''secret-1'', generatedId = ''token-1'',
      clock = (\<lambda>k. 1000 + int k), insertedAt = 1000, localTZA = (\<lambda>t isUTC. 0)\<rparr>"

definition exampleUser :: User where
  "exampleUser =
     \<lparr>uid = ''U1'', email = ''ana@example.com'', first_name = ''Ana'', password = ''old''\<rparr>"

definition exampleToken :: PasswordResetToken where
  "exampleToken =
     \<lparr>tid = ''token-0'', userId = ''U1'', tokenHash = ''sha256:secret-0'',
      expiresAt = 900000, usedAt = None, createdAt = 0\<rparr>"

definition exampleSystem :: System where
  "exampleSystem =
     \<lparr>users = [exampleUser], tokens = [exampleToken], mailQueue = [], nextJobId = 0\<rparr>"

definition exampleEnv2 :: Env where
  "exampleEnv2 = exampleEnv\<lparr>randomBytes := ''secret-2'', generatedId := ''token-2''\<rparr>"

text \<open>
  The offset of a time zone that leaves daylight saving time at
  2025-11-02T06:00:00Z, from four to five hours behind UTC; a local time that
  occurs twice is read with the offset before the transition.
\<close>

definition exampleTZA :: "Date \<Rightarrow> bool \<Rightarrow> int" where
  "exampleTZA t isUTC =
     (if isUTC then (if t < 1762063200000 then - 14400000 else - 18000000)
      else (if t < 1762063200000 - 14400000 then - 14400000 else - 18000000))"

text \<open>A clock that reads the expiry time of the example token.\<close>

definition exampleEnvExpired :: Env where
  "exampleEnvExpired = exampleEnv\<lparr>clock := (\<lambda>k. 900000)\<rparr>"

text \<open>The tokens that two calls of \<open>requestPasswordReset\<close> for the example user insert.\<close>

definition exampleTokenA :: PasswordResetToken where
  "exampleTokenA =
     \<lparr>tid = ''token-1'', userId = ''U1'', tokenHash = ''sha256:secret-1'',
      expiresAt = 901001, usedAt = None, createdAt = 1000\<rparr>"

definition exampleTokenB :: PasswordResetToken where
  "exampleTokenB =
     \<lparr>tid = ''token-2'', userId = ''U1'', tokenHash = ''sha256:secret-2'',
      expiresAt = 901001, usedAt = None, createdAt = 1000\<rparr>"

text \<open>The example state after the stored token has been consumed.\<close>

definition exampleSystemAfterReset :: System where
  "exampleSystemAfterReset =
     exampleSystem\<lparr>users := [exampleUser\<lparr>password := ''bcrypt:new''\<rparr>],
                   tokens := [exampleToken\<lparr>usedAt := Some 1001\<rparr>]\<rparr>"

text \<open>An example world, processor and jobs.\<close>

definition exampleWorld :: World where
  "exampleWorld =
     \<lparr>templates =
        [''greeting'' \<mapsto> ''Hi {{firstName}}, code {{code}}'',
         ''dotted'' \<mapsto> ''Hi {{firstName}}, code {{user.code}}'',
         ''notice'' \<mapsto> ''Dear {{first-name}} {{user name}}, {{ code }}'',
         ''styled'' \<mapsto>
           ''<style>p { color: red }</style>Dear {{first-name}} {{ user name }}, pay {{amount}} {{code}}{{user.code}}''],
      httpPost = (\<lambda>payload. Inl \<lparr>error_message = ''timeout of 10000ms exceeded'', response = None\<rparr>),
      regexpReplace = (\<lambda>key val html. None)\<rparr>"

definition exampleProcessor :: MailProcessor where
  "exampleProcessor = onModuleInit [''BREVO_API_KEY'' \<mapsto> ''xkeysib-1'']"

definition exampleWorlds :: "nat \<Rightarrow> World" where
  "exampleWorlds n = exampleWorld"

definition exampleDto :: SendMailDto where
  "exampleDto =
     \<lparr>to = ''ana@example.com'', subject = ''Welcome'', template = ''greeting'',
      params = Some [(''firstName'', ''Ana'')]\<rparr>"


definition exampleJob :: Job where
  "exampleJob = queue_add 0 SEND_EMAIL (Mail exampleDto) DEFAULT_MAIL_JOB_OPTIONS"

text \<open>A job whose template has no file, and a job under a name the processor does not know.\<close>

definition exampleJobAbsent :: Job where
  "exampleJobAbsent =
     queue_add 1 SEND_EMAIL (Mail (exampleDto\<lparr>template := ''absent''\<rparr>)) DEFAULT_MAIL_JOB_OPTIONS"

definition exampleJobUnknown :: Job where
  "exampleJobUnknown =
     queue_add 2 ''send-sms''
       (Raw \<lparr>raw_to = ''ana@example.com'', raw_subject = ''Hello'', htmlContent = ''<p>Hi</p>''\<rparr>)
       DEFAULT_MAIL_JOB_OPTIONS"

lemmas example_defs =
  exampleHash_def exampleEnv_def exampleUser_def exampleToken_def exampleSystem_def

section \<open>Properties of the token operations\<close>

lemma findValidToken_None_iff:
  "findValidToken h now ts = None \<longleftrightarrow>
     (\<forall>t\<in>set ts. tokenHash t = h \<longrightarrow> usedAt t \<noteq> None \<or> expiresAt t \<le> now)"
  by (auto simp: findValidToken_def find_None_iff)

lemma findValidToken_spec_lookup:
  "(findValidToken (H tok) now ts \<noteq> None) = spec_lookup H tok now ts"
  by (auto simp: findValidToken_None_iff spec_lookup_def list_ex_iff)

subsection \<open>The expiry of a new token\<close>

lemma time_fields:
  "MakeDate (Day t) (MakeTime (HourFromTime t) (MinFromTime t + m) (SecFromTime t) (msFromTime t))
     = t + m * 60000"
proof -
  define q1 q2 q3 q4 where "q1 = t div 1000" and "q2 = t div 60000" and "q3 = t div 3600000"
    and "q4 = t div 86400000"
  define r1 r2 r3 r4 where "r1 = t mod 1000" and "r2 = q1 mod 60" and "r3 = q2 mod 60"
    and "r4 = q3 mod 24"
  have a: "t = q1 * 1000 + r1"
    unfolding q1_def r1_def by simp
  have "q2 = q1 div 60" "q3 = q2 div 60" "q4 = q3 div 24"
    unfolding q1_def q2_def q3_def q4_def by (simp_all add: zdiv_zmult2_eq [symmetric])
  then have b: "q1 = q2 * 60 + r2" and c: "q2 = q3 * 60 + r3" and d: "q3 = q4 * 24 + r4"
    unfolding r2_def r3_def r4_def by simp_all
  have "q4 * 86400000 + (r4 * 3600000 + (r3 + m) * 60000 + r2 * 1000 + r1) = t + m * 60000"
    using a b c d by (simp add: algebra_simps)
  then show ?thesis
    unfolding MakeDate_def MakeTime_def Day_def HourFromTime_def MinFromTime_def SecFromTime_def
      msFromTime_def q1_def q2_def q3_def q4_def r1_def r2_def r3_def r4_def .
qed

text \<open>
  \<open>setMinutes(getMinutes() + m)\<close> adds \<open>m\<close> minutes to the local time and
  reads the result back as a local time.
\<close>

lemma setMinutes_getMinutes:
  "setMinutes tza d (getMinutes tza d + m) = UTC tza (LocalTime tza d + m * 60000)"
  by (simp add: setMinutes_def getMinutes_def Let_def time_fields)

text \<open>
  In a time zone with a fixed offset the token expires fifteen minutes after the
  clock reading; across a change of the offset it does not: ten minutes before
  the end of daylight saving time the expiry is seventy-five minutes away.
\<close>

lemma issuedExpiry_fixed_offset:
  assumes "localTZA env = (\<lambda>t isUTC. z)"
  shows "issuedExpiry env = clock env 1 + 900000"
  using assms
  by (simp add: issuedExpiry_def setMinutes_getMinutes UTC_def LocalTime_def
        TOKEN_EXPIRATION_MINUTES_def)

lemma issuedExpiry_across_transition:
  "issuedExpiry (exampleEnv\<lparr>clock := (\<lambda>k. 1762062600000), localTZA := exampleTZA\<rparr>)
     = 1762062600000 + 75 * 60000"
  by (simp add: issuedExpiry_def setMinutes_getMinutes UTC_def LocalTime_def
        TOKEN_EXPIRATION_MINUTES_def exampleTZA_def exampleEnv_def)

subsection \<open>The statements, row by row\<close>

lemma markTokenUsed_simps [simp]:
  "markTokenUsed now i [] = []"
  "markTokenUsed now i (t # ts) =
     (if tid t = i then t\<lparr>usedAt := Some now\<rparr> else t) # markTokenUsed now i ts"
  by (simp_all add: markTokenUsed_def)

lemma invalidatePreviousTokens_simps [simp]:
  "invalidatePreviousTokens now u x [] = []"
  "invalidatePreviousTokens now u x (t # ts) =
     (if userId t = u \<and> usedAt t = None
         \<and> (case x of None \<Rightarrow> True | Some y \<Rightarrow> y = [] \<or> tid t \<noteq> y)
      then t\<lparr>usedAt := Some now\<rparr> else t) # invalidatePreviousTokens now u x ts"
  by (simp_all add: invalidatePreviousTokens_def)

lemma updatePassword_simps [simp]:
  "updatePassword u hashed [] = []"
  "updatePassword u hashed (usr # us) =
     (if uid usr = u then usr\<lparr>password := hashed\<rparr> else usr) # updatePassword u hashed us"
  by (simp_all add: updatePassword_def)

lemma updatePassword_sets:
  "usr \<in> set (updatePassword u hashed us) \<Longrightarrow> uid usr = u \<Longrightarrow> password usr = hashed"
proof (induction us)
  case Nil
  then show ?case by simp
next
  case (Cons a us)
  show ?case
  proof (cases "usr \<in> set (updatePassword u hashed us)")
    case True
    with Cons show ?thesis by simp
  next
    case False
    with Cons.prems show ?thesis by (simp split: if_splits)
  qed
qed

text \<open>Both updates of the token table keep every row's id, owner and digest, and never clear \<open>usedAt\<close>.\<close>

lemma markTokenUsed_elem:
  "t' \<in> set (markTokenUsed now i ts) \<Longrightarrow>
     \<exists>t\<in>set ts. tid t' = tid t \<and> userId t' = userId t \<and> tokenHash t' = tokenHash t
        \<and> (usedAt t \<noteq> None \<longrightarrow> usedAt t' \<noteq> None)
        \<and> (tid t = i \<longrightarrow> usedAt t' \<noteq> None)"
proof (induction ts)
  case Nil
  then show ?case by simp
next
  case (Cons a ts)
  show ?case
  proof (cases "t' \<in> set (markTokenUsed now i ts)")
    case True
    from Cons.IH [OF True] show ?thesis by simp
  next
    case False
    with Cons.prems have "t' = (if tid a = i then a\<lparr>usedAt := Some now\<rparr> else a)" by simp
    then have "tid t' = tid a \<and> userId t' = userId a \<and> tokenHash t' = tokenHash a
        \<and> (usedAt a \<noteq> None \<longrightarrow> usedAt t' \<noteq> None)
        \<and> (tid a = i \<longrightarrow> usedAt t' \<noteq> None)"
      by (simp split: if_splits)
    then show ?thesis by simp
  qed
qed

lemma invalidatePreviousTokens_elem:
  "t' \<in> set (invalidatePreviousTokens now u x ts) \<Longrightarrow>
     \<exists>t\<in>set ts. tid t' = tid t \<and> userId t' = userId t \<and> tokenHash t' = tokenHash t
        \<and> (usedAt t \<noteq> None \<longrightarrow> usedAt t' \<noteq> None)
        \<and> (userId t = u \<and> (case x of None \<Rightarrow> True | Some y \<Rightarrow> y = [] \<or> tid t \<noteq> y)
              \<longrightarrow> usedAt t' \<noteq> None)"
proof (induction ts)
  case Nil
  then show ?case by simp
next
  case (Cons a ts)
  show ?case
  proof (cases "t' \<in> set (invalidatePreviousTokens now u x ts)")
    case True
    from Cons.IH [OF True] show ?thesis by simp
  next
    case False
    with Cons.prems have "t' = (if userId a = u \<and> usedAt a = None
         \<and> (case x of None \<Rightarrow> True | Some y \<Rightarrow> y = [] \<or> tid a \<noteq> y)
      then a\<lparr>usedAt := Some now\<rparr> else a)" by simp
    then have "tid t' = tid a \<and> userId t' = userId a \<and> tokenHash t' = tokenHash a
        \<and> (usedAt a \<noteq> None \<longrightarrow> usedAt t' \<noteq> None)
        \<and> (userId a = u \<and> (case x of None \<Rightarrow> True | Some y \<Rightarrow> y = [] \<or> tid a \<noteq> y)
              \<longrightarrow> usedAt t' \<noteq> None)"
      by (simp split: if_splits)
    then show ?thesis by simp
  qed
qed

lemma owner_tokens_used:
  assumes "t' \<in> set (invalidatePreviousTokens now2 u (Some i) (markTokenUsed now1 i ts))"
    and "userId t' = u"
  shows "usedAt t' \<noteq> None"
proof -
  from invalidatePreviousTokens_elem [OF assms(1)] obtain t1 where
    t1: "t1 \<in> set (markTokenUsed now1 i ts)" "tid t' = tid t1" "userId t' = userId t1"
      "usedAt t1 \<noteq> None \<longrightarrow> usedAt t' \<noteq> None"
      "userId t1 = u \<and> (case Some i of None \<Rightarrow> True | Some y \<Rightarrow> y = [] \<or> tid t1 \<noteq> y)
          \<longrightarrow> usedAt t' \<noteq> None"
    by blast
  from markTokenUsed_elem [OF t1(1)] obtain t0 where
    t0: "t0 \<in> set ts" "tid t1 = tid t0" "tid t0 = i \<longrightarrow> usedAt t1 \<noteq> None"
    by blast
  show ?thesis
  proof (cases "tid t1 = i")
    case True
    with t0 t1(4) show ?thesis by simp
  next
    case False
    with t1(3,5) assms(2) show ?thesis by simp
  qed
qed



lemma findValidToken_Some:
  "findValidToken h now ts = Some t \<Longrightarrow>
     t \<in> set ts \<and> tokenHash t = h \<and> usedAt t = None \<and> now < expiresAt t"
  by (induction ts) (simp_all add: findValidToken_def split: if_splits)

subsection \<open>A digest whose tokens are all consumed stays so\<close>

lemma digestConsumed_markTokenUsed:
  "digestConsumed h ts \<Longrightarrow> digestConsumed h (markTokenUsed now i ts)"
  unfolding digestConsumed_def using markTokenUsed_elem by metis

lemma digestConsumed_invalidatePreviousTokens:
  "digestConsumed h ts \<Longrightarrow> digestConsumed h (invalidatePreviousTokens now u x ts)"
  unfolding digestConsumed_def using invalidatePreviousTokens_elem by metis

lemma digestConsumed_saveToken:
  "saveToken t ts = Some ts' \<Longrightarrow> tokenHash t \<noteq> h \<Longrightarrow> digestConsumed h ts \<Longrightarrow> digestConsumed h ts'"
proof -
  assume a: "saveToken t ts = Some ts'" "tokenHash t \<noteq> h" "digestConsumed h ts"
  from a(1) have "ts' = ts @ [t]"
    by (simp add: saveToken_def split: if_splits)
  with a(2,3) show ?thesis
    by (simp add: digestConsumed_def)
qed

lemma tokens_sendPasswordResetEmail [simp]:
  "tokens (sendPasswordResetEmail cfg m f tok s) = tokens s"
  by (simp add: sendPasswordResetEmail_def enqueueMail_def Let_def)

lemma digestConsumed_findValidToken:
  "digestConsumed h ts \<Longrightarrow> findValidToken h now ts = None"
  unfolding digestConsumed_def findValidToken_None_iff by blast

lemma requestPasswordReset_digestConsumed:
  assumes "H (randomBytes env) \<noteq> h" and "digestConsumed h (tokens s)"
  shows "digestConsumed h (tokens (snd (requestPasswordReset H env u s)))"
proof -
  let ?inv = "invalidatePreviousTokens (clock env 0) u None (tokens s)"
  have i: "digestConsumed h ?inv"
    using assms(2) by (rule digestConsumed_invalidatePreviousTokens)
  have sv: "\<And>usr ts'. saveToken \<lparr>tid = generatedId env, userId = uid usr, tokenHash = H (randomBytes env),
                   expiresAt = issuedExpiry env,
                   usedAt = None, createdAt = insertedAt env\<rparr> ?inv = Some ts' \<Longrightarrow> digestConsumed h ts'"
    using digestConsumed_saveToken [OF _ _ i] assms(1) by simp
  show ?thesis
    using assms(2) i sv
    by (simp add: requestPasswordReset_def issuedExpiry_def Let_def split: option.splits) blast
qed

lemma resetPassword_digestConsumed:
  assumes "digestConsumed h (tokens s)"
  shows "digestConsumed h (tokens (snd (resetPassword H env dto s)))"
  using assms digestConsumed_markTokenUsed digestConsumed_invalidatePreviousTokens
  by (simp add: resetPassword_def Let_def split: option.splits)

lemma serve_digestConsumed:
  assumes "digestConsumed h (tokens s)"
    and "\<forall>u. snd r = RequestPasswordReset u \<longrightarrow> H (randomBytes (fst r)) \<noteq> h"
  shows "digestConsumed h (tokens (serve H r s))"
proof (cases r)
  case (Pair env req)
  show ?thesis
  proof (cases req)
    case (RequestPasswordReset u)
    with Pair assms show ?thesis
      by (simp add: requestPasswordReset_digestConsumed)
  next
    case (ResetPassword dto)
    with Pair assms show ?thesis
      by (simp add: resetPassword_digestConsumed)
  next
    case (ValidateResetToken tok)
    with Pair assms show ?thesis
      by (simp add: validateResetToken_def)
  qed
qed

lemma serve_all_digestConsumed:
  assumes "digestConsumed h (tokens s)"
    and "\<forall>r\<in>set rs. \<forall>u. snd r = RequestPasswordReset u \<longrightarrow> H (randomBytes (fst r)) \<noteq> h"
  shows "digestConsumed h (tokens (serve_all H rs s))"
  using assms
proof (induction rs arbitrary: s)
  case Nil
  then show ?case by simp
next
  case (Cons r rs)
  have "digestConsumed h (tokens (serve H r s))"
    using Cons.prems by (intro serve_digestConsumed) simp_all
  with Cons show ?case by simp
qed

lemma resetPassword_success:
  assumes "resetPassword H env dto s = (Inr (), s1)"
  shows "\<exists>t. findValidToken (H (token dto)) (clock env 0) (tokens s) = Some t
           \<and> tokens s1 = invalidatePreviousTokens (clock env 2) (userId t) (Some (tid t))
                            (markTokenUsed (clock env 1) (tid t) (tokens s))"
  using assms
  by (simp add: resetPassword_def Let_def InvalidOrExpiredToken_def split: option.splits if_splits)
     (metis System.select_convs(2) System.surjective System.update_convs(1,2))

lemma hash_after_success:
  assumes d: "distinct (map tokenHash (tokens s))"
    and ok: "resetPassword H env dto s = (Inr (), s1)"
  shows "digestConsumed (H (token dto)) (tokens s1)"
proof -
  from resetPassword_success [OF ok] obtain t where
    f: "findValidToken (H (token dto)) (clock env 0) (tokens s) = Some t"
    and s1: "tokens s1 = invalidatePreviousTokens (clock env 2) (userId t) (Some (tid t))
                            (markTokenUsed (clock env 1) (tid t) (tokens s))"
    by blast
  from f have t: "t \<in> set (tokens s)" "tokenHash t = H (token dto)"
    using findValidToken_Some by blast+
  have inj: "inj_on tokenHash (set (tokens s))"
    using d by (simp add: distinct_map)
  show ?thesis
    unfolding digestConsumed_def
  proof (intro ballI impI)
    fix t' assume t': "t' \<in> set (tokens s1)" "tokenHash t' = H (token dto)"
    from t'(1) s1 have "t' \<in> set (invalidatePreviousTokens (clock env 2) (userId t) (Some (tid t))
                            (markTokenUsed (clock env 1) (tid t) (tokens s)))" by simp
    from invalidatePreviousTokens_elem [OF this] obtain t1 where
      t1: "t1 \<in> set (markTokenUsed (clock env 1) (tid t) (tokens s))"
        "tokenHash t' = tokenHash t1" "usedAt t1 \<noteq> None \<longrightarrow> usedAt t' \<noteq> None"
      by blast
    from markTokenUsed_elem [OF t1(1)] obtain t0 where
      t0: "t0 \<in> set (tokens s)" "tokenHash t1 = tokenHash t0" "tid t0 = tid t \<longrightarrow> usedAt t1 \<noteq> None"
      by blast
    from t0(1,2) t1(2) t'(2) t inj have "t0 = t"
      by (simp add: inj_on_def)
    with t0(3) t1(3) show "usedAt t' \<noteq> None" by simp
  qed
qed

subsection \<open>At most one unconsumed token per owner\<close>

lemma unusedOf_simps [simp]:
  "unusedOf u [] = []"
  "unusedOf u (t # ts) = (if userId t = u \<and> usedAt t = None then t # unusedOf u ts else unusedOf u ts)"
  "unusedOf u (ts @ ts') = unusedOf u ts @ unusedOf u ts'"
  by (simp_all add: unusedOf_def)

lemma unusedOf_invalidate_owner:
  "unusedOf u (invalidatePreviousTokens now u None ts) = []"
  by (induction ts) simp_all

lemma length_filter_map_le:
  "(\<And>x. P (f x) \<Longrightarrow> Q x) \<Longrightarrow> length (filter P (map f xs)) \<le> length (filter Q xs)"
  by (induction xs) (auto simp: le_SucI)

lemma length_unusedOf_invalidate:
  "length (unusedOf u' (invalidatePreviousTokens now u x ts)) \<le> length (unusedOf u' ts)"
  unfolding unusedOf_def invalidatePreviousTokens_def
  by (rule length_filter_map_le) (simp split: if_splits)

lemma length_unusedOf_markTokenUsed:
  "length (unusedOf u' (markTokenUsed now i ts)) \<le> length (unusedOf u' ts)"
  unfolding unusedOf_def markTokenUsed_def
  by (rule length_filter_map_le) (simp split: if_splits)

lemma oneUnused_invalidate:
  "oneUnusedPerOwner ts \<Longrightarrow> oneUnusedPerOwner (invalidatePreviousTokens now u x ts)"
  unfolding oneUnusedPerOwner_def using length_unusedOf_invalidate le_trans by blast

lemma oneUnused_markTokenUsed:
  "oneUnusedPerOwner ts \<Longrightarrow> oneUnusedPerOwner (markTokenUsed now i ts)"
  unfolding oneUnusedPerOwner_def using length_unusedOf_markTokenUsed le_trans by blast

lemma findUser_uid: "findUser u us = Some usr \<Longrightarrow> uid usr = u"
  by (induction us) (simp_all add: findUser_def split: if_splits)

lemma oneUnused_issue:
  assumes "oneUnusedPerOwner ts" and "userId t = u"
  shows "oneUnusedPerOwner (invalidatePreviousTokens now u None ts @ [t])"
  unfolding oneUnusedPerOwner_def
proof
  fix u'
  show "length (unusedOf u' (invalidatePreviousTokens now u None ts @ [t])) \<le> 1"
  proof (cases "u' = u")
    case True
    then show ?thesis by (simp add: unusedOf_invalidate_owner)
  next
    case False
    have "length (unusedOf u' (invalidatePreviousTokens now u None ts)) \<le> length (unusedOf u' ts)"
      by (rule length_unusedOf_invalidate)
    also have "\<dots> \<le> 1" using assms(1) by (simp add: oneUnusedPerOwner_def)
    finally show ?thesis using False assms(2) by simp
  qed
qed

text \<open>What a call of \<open>requestPasswordReset\<close> can leave in the token table.\<close>

lemma requestPasswordReset_tokens:
  "tokens (snd (requestPasswordReset H env u s)) = tokens s
   \<or> tokens (snd (requestPasswordReset H env u s))
        = invalidatePreviousTokens (clock env 0) u None (tokens s)
   \<or> tokens (snd (requestPasswordReset H env u s))
        = invalidatePreviousTokens (clock env 0) u None (tokens s)
          @ [\<lparr>tid = generatedId env, userId = u, tokenHash = H (randomBytes env),
              expiresAt = issuedExpiry env,
              usedAt = None, createdAt = insertedAt env\<rparr>]"
proof (cases "findUser u (users s)")
  case None
  then show ?thesis by (simp add: requestPasswordReset_def)
next
  case (Some usr)
  then have "uid usr = u" by (rule findUser_uid)
  with Some show ?thesis
    by (simp add: requestPasswordReset_def issuedExpiry_def Let_def saveToken_def)
qed

lemma requestPasswordReset_success:
  assumes "requestPasswordReset H env u s = (Inr (), s1)"
  shows "tokens s1 = invalidatePreviousTokens (clock env 0) u None (tokens s)
          @ [\<lparr>tid = generatedId env, userId = u, tokenHash = H (randomBytes env),
              expiresAt = issuedExpiry env,
              usedAt = None, createdAt = insertedAt env\<rparr>]"
proof (cases "findUser u (users s)")
  case None
  with assms show ?thesis by (simp add: requestPasswordReset_def split: if_splits)
next
  case (Some usr)
  then have "uid usr = u" by (rule findUser_uid)
  with Some assms have "s1 = sendPasswordResetEmail (config env) (email usr) (first_name usr) (randomBytes env)
       (s\<lparr>tokens := invalidatePreviousTokens (clock env 0) u None (tokens s)
          @ [\<lparr>tid = generatedId env, userId = u, tokenHash = H (randomBytes env),
              expiresAt = issuedExpiry env,
              usedAt = None, createdAt = insertedAt env\<rparr>]\<rparr>)"
    by (simp add: requestPasswordReset_def issuedExpiry_def Let_def saveToken_def split: if_splits)
  then show ?thesis by simp
qed

lemma resetPassword_tokens:
  assumes "findValidToken (H (token dto)) (clock env 0) (tokens s) = Some t"
  shows "tokens (snd (resetPassword H env dto s)) = tokens s
   \<or> tokens (snd (resetPassword H env dto s)) = markTokenUsed (clock env 1) (tid t) (tokens s)
   \<or> tokens (snd (resetPassword H env dto s))
          = invalidatePreviousTokens (clock env 2) (userId t) (Some (tid t))
              (markTokenUsed (clock env 1) (tid t) (tokens s))"
  using assms by (simp add: resetPassword_def Let_def)

lemma requestPasswordReset_oneUnused:
  assumes "oneUnusedPerOwner (tokens s)"
  shows "oneUnusedPerOwner (tokens (snd (requestPasswordReset H env u s)))"
  using requestPasswordReset_tokens [of H env u s] assms
    oneUnused_invalidate [of "tokens s" "clock env 0" u None]
    oneUnused_issue [of "tokens s" "\<lparr>tid = generatedId env, userId = u, tokenHash = H (randomBytes env),
              expiresAt = issuedExpiry env,
              usedAt = None, createdAt = insertedAt env\<rparr>" u "clock env 0"]
  by (elim disjE) simp_all

lemma resetPassword_oneUnused:
  assumes "oneUnusedPerOwner (tokens s)"
  shows "oneUnusedPerOwner (tokens (snd (resetPassword H env dto s)))"
proof (cases "findValidToken (H (token dto)) (clock env 0) (tokens s)")
  case None
  with assms show ?thesis by (simp add: resetPassword_def)
next
  case (Some t)
  have m: "oneUnusedPerOwner (markTokenUsed (clock env 1) (tid t) (tokens s))"
    using assms by (rule oneUnused_markTokenUsed)
  then have i: "oneUnusedPerOwner (invalidatePreviousTokens (clock env 2) (userId t) (Some (tid t))
              (markTokenUsed (clock env 1) (tid t) (tokens s)))"
    by (rule oneUnused_invalidate)
  from resetPassword_tokens [where H = H and dto = dto and env = env and s = s and t = t, OF Some]
  show ?thesis
  proof (elim disjE)
    assume "tokens (snd (resetPassword H env dto s)) = tokens s"
    with assms show ?thesis by simp
  next
    assume "tokens (snd (resetPassword H env dto s)) = markTokenUsed (clock env 1) (tid t) (tokens s)"
    with m show ?thesis by simp
  next
    assume "tokens (snd (resetPassword H env dto s))
          = invalidatePreviousTokens (clock env 2) (userId t) (Some (tid t))
              (markTokenUsed (clock env 1) (tid t) (tokens s))"
    with i show ?thesis by simp
  qed
qed

lemma serve_oneUnused:
  assumes "oneUnusedPerOwner (tokens s)"
  shows "oneUnusedPerOwner (tokens (serve H r s))"
proof (cases r)
  case (Pair env req)
  show ?thesis
  proof (cases req)
    case (RequestPasswordReset u)
    with Pair assms show ?thesis by (simp add: requestPasswordReset_oneUnused)
  next
    case (ResetPassword dto)
    with Pair assms show ?thesis by (simp add: resetPassword_oneUnused)
  next
    case (ValidateResetToken tok)
    with Pair assms show ?thesis by (simp add: validateResetToken_def)
  qed
qed

lemma serve_all_oneUnused:
  "oneUnusedPerOwner (tokens s) \<Longrightarrow> oneUnusedPerOwner (tokens (serve_all H rs s))"
  by (induction rs arbitrary: s) (simp_all add: serve_oneUnused)

lemma length_validOf_le: "length (validOf now u ts) \<le> length (unusedOf u ts)"
  by (induction ts) (simp_all add: validOf_def isValid_def le_SucI)

lemma issue_twice_digestConsumed:
  assumes r1: "requestPasswordReset H e1 u s = (Inr (), s1)"
    and r2: "requestPasswordReset H e2 u s1 = (Inr (), s2)"
    and fresh: "H (randomBytes e1) \<notin> tokenHash ` set (tokens s)"
    and diff: "H (randomBytes e2) \<noteq> H (randomBytes e1)"
  shows "digestConsumed (H (randomBytes e1)) (tokens s2)"
  unfolding digestConsumed_def
proof (intro ballI impI)
  fix t' assume t': "t' \<in> set (tokens s2)" "tokenHash t' = H (randomBytes e1)"
  let ?new1 = "\<lparr>tid = generatedId e1, userId = u, tokenHash = H (randomBytes e1),
              expiresAt = issuedExpiry e1,
              usedAt = None, createdAt = insertedAt e1\<rparr>"
  let ?inv1 = "invalidatePreviousTokens (clock e1 0) u None (tokens s)"
  have s1: "tokens s1 = ?inv1 @ [?new1]"
    using requestPasswordReset_success [OF r1] .
  have s2: "tokens s2 = invalidatePreviousTokens (clock e2 0) u None (tokens s1)
          @ [\<lparr>tid = generatedId e2, userId = u, tokenHash = H (randomBytes e2),
              expiresAt = issuedExpiry e2,
              usedAt = None, createdAt = insertedAt e2\<rparr>]"
    using requestPasswordReset_success [OF r2] .
  let ?new2 = "\<lparr>tid = generatedId e2, userId = u, tokenHash = H (randomBytes e2),
              expiresAt = issuedExpiry e2,
              usedAt = None, createdAt = insertedAt e2\<rparr>"
  have "t' \<noteq> ?new2"
  proof
    assume "t' = ?new2"
    then have "tokenHash t' = H (randomBytes e2)" by simp
    with t'(2) diff show False by simp
  qed
  moreover from t'(1) have "t' \<in> set (invalidatePreviousTokens (clock e2 0) u None (tokens s1)) \<or> t' = ?new2"
    unfolding s2 by simp blast
  ultimately have "t' \<in> set (invalidatePreviousTokens (clock e2 0) u None (tokens s1))"
    by blast
  from invalidatePreviousTokens_elem [OF this] obtain t where
    t: "t \<in> set (tokens s1)" "tokenHash t' = tokenHash t"
       "userId t = u \<longrightarrow> usedAt t' \<noteq> None"
    by auto
  have "t \<notin> set ?inv1"
  proof
    assume "t \<in> set ?inv1"
    from invalidatePreviousTokens_elem [OF this] obtain t0 where
      "t0 \<in> set (tokens s)" "tokenHash t = tokenHash t0" by blast
    with t(2) t'(2) have "H (randomBytes e1) \<in> tokenHash ` set (tokens s)"
      by (simp add: image_iff) metis
    with fresh show False by simp
  qed
  moreover from t(1) have "t \<in> set ?inv1 \<or> t = ?new1" unfolding s1 by simp blast
  ultimately have "t = ?new1" by blast
  then have "userId t = u" by simp
  with t(3) show "usedAt t' \<noteq> None" by simp
qed

lemmas date_eval = setMinutes_def getMinutes_def LocalTime_def UTC_def MakeDate_def MakeTime_def
  Day_def HourFromTime_def MinFromTime_def SecFromTime_def msFromTime_def

lemmas issue_eval = requestPasswordReset_def findUser_def saveToken_def
  sendPasswordResetEmail_def enqueueMail_def queue_add_def config_or_def
  TOKEN_EXPIRATION_MINUTES_def Let_def date_eval

subsection \<open>The claims on the token operations\<close>

text \<open>
  Claim C1, as the code has it. \<open>resetPassword\<close> opens no transaction: its
  three sub-steps are three statements that take effect one by one, in the
  order credential update, \<open>usedAt\<close> on the matched token, invalidation of
  the owner's other unconsumed tokens. With a valid token found: when none
  rejects, the call succeeds, the owner's password is the new hash and every
  token of the owner is consumed; when one rejects, the call fails with that
  error, the statements before it have taken effect and those after it have not
  run.
\<close>

theorem resetPassword_substeps_take_effect_one_by_one:
  assumes run: "FindToken \<notin> rejects env"
    and found: "findValidToken (H (token dto)) (clock env 0) (tokens s) = Some t"
  shows
   "(UpdateUser \<in> rejects env \<longrightarrow>
       resetPassword H env dto s = (Inl (QueryFailedError UpdateUser), s))
    \<and> (UpdateUser \<notin> rejects env \<and> MarkUsed \<in> rejects env \<longrightarrow>
       resetPassword H env dto s =
         (Inl (QueryFailedError MarkUsed),
          s\<lparr>users := updatePassword (userId t) (bcrypt_hash env (newPassword dto)) (users s)\<rparr>))
    \<and> (UpdateUser \<notin> rejects env \<and> MarkUsed \<notin> rejects env \<and> InvalidateTokens \<in> rejects env \<longrightarrow>
       resetPassword H env dto s =
         (Inl (QueryFailedError InvalidateTokens),
          s\<lparr>users := updatePassword (userId t) (bcrypt_hash env (newPassword dto)) (users s),
            tokens := markTokenUsed (clock env 1) (tid t) (tokens s)\<rparr>))
    \<and> (UpdateUser \<notin> rejects env \<and> MarkUsed \<notin> rejects env \<and> InvalidateTokens \<notin> rejects env \<longrightarrow>
       resetPassword H env dto s =
         (Inr (),
          s\<lparr>users := updatePassword (userId t) (bcrypt_hash env (newPassword dto)) (users s),
            tokens := invalidatePreviousTokens (clock env 2) (userId t) (Some (tid t))
                        (markTokenUsed (clock env 1) (tid t) (tokens s))\<rparr>)
       \<and> (\<forall>usr\<in>set (users (snd (resetPassword H env dto s))).
             uid usr = userId t \<longrightarrow> password usr = bcrypt_hash env (newPassword dto))
       \<and> (\<forall>t'\<in>set (tokens (snd (resetPassword H env dto s))).
             userId t' = userId t \<longrightarrow> usedAt t' \<noteq> None))"
proof -
  have a: "UpdateUser \<in> rejects env \<Longrightarrow>
       resetPassword H env dto s = (Inl (QueryFailedError UpdateUser), s)"
    using run found by (simp add: resetPassword_def)
  have b: "UpdateUser \<notin> rejects env \<Longrightarrow> MarkUsed \<in> rejects env \<Longrightarrow>
       resetPassword H env dto s =
         (Inl (QueryFailedError MarkUsed),
          s\<lparr>users := updatePassword (userId t) (bcrypt_hash env (newPassword dto)) (users s)\<rparr>)"
    using run found by (simp add: resetPassword_def)
  have c: "UpdateUser \<notin> rejects env \<Longrightarrow> MarkUsed \<notin> rejects env \<Longrightarrow> InvalidateTokens \<in> rejects env \<Longrightarrow>
       resetPassword H env dto s =
         (Inl (QueryFailedError InvalidateTokens),
          s\<lparr>users := updatePassword (userId t) (bcrypt_hash env (newPassword dto)) (users s),
            tokens := markTokenUsed (clock env 1) (tid t) (tokens s)\<rparr>)"
    using run found by (simp add: resetPassword_def)
  have d: "UpdateUser \<notin> rejects env \<Longrightarrow> MarkUsed \<notin> rejects env \<Longrightarrow> InvalidateTokens \<notin> rejects env \<Longrightarrow>
       resetPassword H env dto s =
         (Inr (),
          s\<lparr>users := updatePassword (userId t) (bcrypt_hash env (newPassword dto)) (users s),
            tokens := invalidatePreviousTokens (clock env 2) (userId t) (Some (tid t))
                        (markTokenUsed (clock env 1) (tid t) (tokens s))\<rparr>)"
    using run found by (simp add: resetPassword_def)
  have e: "\<forall>usr\<in>set (updatePassword (userId t) (bcrypt_hash env (newPassword dto)) (users s)).
             uid usr = userId t \<longrightarrow> password usr = bcrypt_hash env (newPassword dto)"
    using updatePassword_sets by blast
  have f: "\<forall>t'\<in>set (invalidatePreviousTokens (clock env 2) (userId t) (Some (tid t))
                        (markTokenUsed (clock env 1) (tid t) (tokens s))).
             userId t' = userId t \<longrightarrow> usedAt t' \<noteq> None"
    using owner_tokens_used by blast
  show ?thesis
    using a b c d e f by simp
qed

theorem resetPassword_substeps_take_effect_one_by_one_witness:
  "FindToken \<notin> rejects exampleEnv
   \<and> findValidToken (exampleHash ''secret-0'') (clock exampleEnv 0) (tokens exampleSystem)
       = Some exampleToken
   \<and> resetPassword exampleHash exampleEnv \<lparr>token = ''secret-0'', newPassword = ''new''\<rparr> exampleSystem
     = (Inr (), exampleSystem\<lparr>users := [exampleUser\<lparr>password := ''bcrypt:new''\<rparr>],
                               tokens := [exampleToken\<lparr>usedAt := Some 1001\<rparr>]\<rparr>)"
proof -
  have r: "FindToken \<notin> rejects exampleEnv"
    by (simp add: example_defs)
  have f: "findValidToken (exampleHash (token \<lparr>token = ''secret-0'', newPassword = ''new''\<rparr>))
              (clock exampleEnv 0) (tokens exampleSystem) = Some exampleToken"
    by (simp add: example_defs findValidToken_def)
  show ?thesis
    using r f
      resetPassword_substeps_take_effect_one_by_one
        [where env = exampleEnv and H = exampleHash and s = exampleSystem and t = exampleToken
            and dto = "\<lparr>token = ''secret-0'', newPassword = ''new''\<rparr>", OF r f]
    by (simp add: example_defs)
qed

text \<open>
  Claim C1 as stated fails: when the second sub-step rejects, the call fails
  with the credential changed and the matched token still unconsumed.
\<close>

theorem resetPassword_not_transactional_counterexample:
  "resetPassword exampleHash (exampleEnv\<lparr>rejects := {MarkUsed}\<rparr>)
     \<lparr>token = ''secret-0'', newPassword = ''new''\<rparr> exampleSystem
   = (Inl (QueryFailedError MarkUsed),
      exampleSystem\<lparr>users := [exampleUser\<lparr>password := ''bcrypt:new''\<rparr>]\<rparr>)
   \<and> tokens exampleSystem = [exampleToken] \<and> usedAt exampleToken = None
   \<and> password exampleUser \<noteq> ''bcrypt:new''"
  by (simp add: example_defs resetPassword_def findValidToken_def)

text \<open>
  Requests served one after the other. From a token table in which no owner has
  two unconsumed tokens, they leave such a table, whatever statements reject, so
  no owner has two valid tokens at any time. A successful
  \<open>requestPasswordReset\<close> leaves the owner exactly one unconsumed token, the
  new one. After two successful calls for the same owner, the first secret fails
  \<open>validateResetToken\<close>, provided its digest was not stored before and the
  second secret has another digest.
\<close>

lemma one_unused_token_per_owner_sequential:
  "(oneUnusedPerOwner (tokens s) \<longrightarrow>
      oneUnusedPerOwner (tokens (serve_all H rs s))
      \<and> (\<forall>now u. length (validOf now u (tokens (serve_all H rs s))) \<le> 1))
   \<and> (requestPasswordReset H e1 u s = (Inr (), s1) \<longrightarrow>
        unusedOf u (tokens s1)
          = [\<lparr>tid = generatedId e1, userId = u, tokenHash = H (randomBytes e1),
              expiresAt = issuedExpiry e1,
              usedAt = None, createdAt = insertedAt e1\<rparr>])
   \<and> (requestPasswordReset H e1 u s = (Inr (), s1)
        \<and> requestPasswordReset H e2 u s1 = (Inr (), s2)
        \<and> H (randomBytes e1) \<notin> tokenHash ` set (tokens s)
        \<and> H (randomBytes e2) \<noteq> H (randomBytes e1)
        \<and> FindToken \<notin> rejects e3
      \<longrightarrow> validateResetToken H e3 (randomBytes e1) s2 = (Inr False, s2))"
proof (intro conjI impI allI)
  assume "oneUnusedPerOwner (tokens s)"
  then show inv: "oneUnusedPerOwner (tokens (serve_all H rs s))"
    by (rule serve_all_oneUnused)
  fix now u'
  have "length (validOf now u' (tokens (serve_all H rs s)))
          \<le> length (unusedOf u' (tokens (serve_all H rs s)))"
    by (rule length_validOf_le)
  also have "\<dots> \<le> 1"
    using inv by (simp add: oneUnusedPerOwner_def)
  finally show "length (validOf now u' (tokens (serve_all H rs s))) \<le> 1" .
next
  assume "requestPasswordReset H e1 u s = (Inr (), s1)"
  from requestPasswordReset_success [OF this]
  show "unusedOf u (tokens s1)
          = [\<lparr>tid = generatedId e1, userId = u, tokenHash = H (randomBytes e1),
              expiresAt = issuedExpiry e1,
              usedAt = None, createdAt = insertedAt e1\<rparr>]"
    by (simp add: unusedOf_invalidate_owner)
next
  assume a: "requestPasswordReset H e1 u s = (Inr (), s1)
        \<and> requestPasswordReset H e2 u s1 = (Inr (), s2)
        \<and> H (randomBytes e1) \<notin> tokenHash ` set (tokens s)
        \<and> H (randomBytes e2) \<noteq> H (randomBytes e1)
        \<and> FindToken \<notin> rejects e3"
  then have "digestConsumed (H (randomBytes e1)) (tokens s2)"
    using issue_twice_digestConsumed by blast
  then have "findValidToken (H (randomBytes e1)) (clock e3 0) (tokens s2) = None"
    by (rule digestConsumed_findValidToken)
  with a show "validateResetToken H e3 (randomBytes e1) s2 = (Inr False, s2)"
    by (simp add: validateResetToken_def)
qed

text \<open>
  The invalidation and the insertion are two statements: when the insertion
  rejects, the call fails with the previous tokens invalidated and no new token
  stored.
\<close>

lemma requestPasswordReset_insert_rejected:
  assumes "FindUser \<notin> rejects env" and "findUser u (users s) = Some usr"
    and "InvalidateTokens \<notin> rejects env" and "SaveToken \<in> rejects env"
  shows "requestPasswordReset H env u s =
           (Inl (QueryFailedError SaveToken),
            s\<lparr>tokens := invalidatePreviousTokens (clock env 0) u None (tokens s)\<rparr>)"
  using assms by (simp add: requestPasswordReset_def Let_def)

text \<open>
  A call in flight that is resumed four times on its own is the call served
  alone.
\<close>

lemma requestPasswordReset_resume:
  "interleave H [(env, AwaitFindUser u)] [0, 0, 0, 0] s
     = ([(env, Returned (fst (requestPasswordReset H env u s)))],
        snd (requestPasswordReset H env u s))"
  by (simp add: requestPasswordReset_def Let_def split: option.splits)

text \<open>
  Claim C2 fails on the code when two calls of \<open>requestPasswordReset\<close> for
  the same owner are in flight together. No statement rejects. The owner has
  one unconsumed token; each call finds the user, each invalidates the owner's
  unconsumed tokens, and then each inserts its own token. Both calls return
  normally, and the owner holds two tokens that are unconsumed and not expired;
  the secret of the first call still passes \<open>validateResetToken\<close> after the
  second call has returned. The entity documents "One active token per user
  (previous tokens invalidated)".
\<close>

theorem requestPasswordReset_interleaved_two_valid_tokens:
  "map snd (fst (interleave exampleHash
       [(exampleEnv, AwaitFindUser ''U1''), (exampleEnv2, AwaitFindUser ''U1'')]
       [0, 1, 0, 1, 0, 1, 0, 1] exampleSystem))
     = [Returned (Inr ()), Returned (Inr ())]
   \<and> tokens (snd (interleave exampleHash
       [(exampleEnv, AwaitFindUser ''U1''), (exampleEnv2, AwaitFindUser ''U1'')]
       [0, 1, 0, 1, 0, 1, 0, 1] exampleSystem))
     = [exampleToken\<lparr>usedAt := Some 1000\<rparr>, exampleTokenA, exampleTokenB]
   \<and> validOf 1002 ''U1'' [exampleToken\<lparr>usedAt := Some 1000\<rparr>, exampleTokenA, exampleTokenB]
     = [exampleTokenA, exampleTokenB]
   \<and> exampleTokenA \<noteq> exampleTokenB
   \<and> fst (validateResetToken exampleHash (exampleEnv\<lparr>clock := (\<lambda>k. 1002)\<rparr>) ''secret-1''
       (snd (interleave exampleHash
       [(exampleEnv, AwaitFindUser ''U1''), (exampleEnv2, AwaitFindUser ''U1'')]
       [0, 1, 0, 1, 0, 1, 0, 1] exampleSystem))) = Inr True"
  by (simp add: example_defs exampleEnv2_def exampleTokenA_def exampleTokenB_def findUser_def
      saveToken_def sendPasswordResetEmail_def enqueueMail_def queue_add_def config_or_def
      TOKEN_EXPIRATION_MINUTES_def Let_def date_eval validOf_def isValid_def
      validateResetToken_def findValidToken_def)

text \<open>
  Claim C3. After a successful \<open>resetPassword\<close> with a secret, in a table
  whose digests are distinct, every later \<open>resetPassword\<close> with that secret
  fails and leaves the state as it was, whatever requests were served in
  between, as long as none of them drew a secret with the same digest; the
  error is \<open>InvalidOrExpiredToken\<close> whenever the lookup runs.
\<close>

theorem resetPassword_succeeds_once:
  assumes "distinct (map tokenHash (tokens s))"
    and "resetPassword H env \<lparr>token = tok, newPassword = pw\<rparr> s = (Inr (), s1)"
    and "\<forall>r\<in>set later. \<forall>u. snd r = RequestPasswordReset u \<longrightarrow> H (randomBytes (fst r)) \<noteq> H tok"
  shows "resetPassword H env' \<lparr>token = tok, newPassword = pw'\<rparr> (serve_all H later s1) =
           (Inl (if FindToken \<in> rejects env' then QueryFailedError FindToken
                 else InvalidOrExpiredToken),
            serve_all H later s1)"
proof -
  from hash_after_success [OF assms(1,2)]
  have "digestConsumed (H tok) (tokens s1)" by simp
  from serve_all_digestConsumed [OF this assms(3)]
  have "digestConsumed (H tok) (tokens (serve_all H later s1))" .
  then have "findValidToken (H tok) (clock env' 0) (tokens (serve_all H later s1)) = None"
    by (rule digestConsumed_findValidToken)
  then show ?thesis
    by (simp add: resetPassword_def)
qed

theorem resetPassword_succeeds_once_witness:
  "distinct (map tokenHash (tokens exampleSystem))
   \<and> resetPassword exampleHash exampleEnv \<lparr>token = ''secret-0'', newPassword = ''new''\<rparr> exampleSystem
       = (Inr (), exampleSystemAfterReset)
   \<and> resetPassword exampleHash exampleEnv \<lparr>token = ''secret-0'', newPassword = ''newer''\<rparr>
        (serve_all exampleHash [(exampleEnv, RequestPasswordReset ''U1'')] exampleSystemAfterReset)
       = (Inl InvalidOrExpiredToken,
          serve_all exampleHash [(exampleEnv, RequestPasswordReset ''U1'')] exampleSystemAfterReset)"
proof -
  have d: "distinct (map tokenHash (tokens exampleSystem))"
    by (simp add: example_defs)
  have ok: "resetPassword exampleHash exampleEnv \<lparr>token = ''secret-0'', newPassword = ''new''\<rparr> exampleSystem
       = (Inr (), exampleSystemAfterReset)"
    by (simp add: example_defs exampleSystemAfterReset_def resetPassword_def findValidToken_def)
  have l: "\<forall>r\<in>set [(exampleEnv, RequestPasswordReset ''U1'')]. \<forall>u. snd r = RequestPasswordReset u
             \<longrightarrow> exampleHash (randomBytes (fst r)) \<noteq> exampleHash ''secret-0''"
    by (simp add: example_defs)
  have r: "FindToken \<notin> rejects exampleEnv"
    by (simp add: example_defs)
  show ?thesis
    using d ok resetPassword_succeeds_once [OF d ok l, of exampleEnv "''newer''"] r by simp
qed

text \<open>
  Claim C4. When the lookup runs, \<open>resetPassword\<close> fails with the one error
  \<open>BadRequestException('Invalid or expired reset token')\<close> and leaves the
  state as it was whenever every stored token with the digest of the secret is
  used or expired: this covers no such token at all, an expired one
  (\<open>expiresAt \<le> now\<close>) and a used one, and the three results are equal.
\<close>

theorem resetPassword_uniform_error:
  assumes "FindToken \<notin> rejects env"
    and "\<forall>t\<in>set (tokens s). tokenHash t = H (token dto) \<longrightarrow>
           usedAt t \<noteq> None \<or> expiresAt t \<le> clock env 0"
  shows "resetPassword H env dto s =
           (Inl (BadRequestException ''Invalid or expired reset token''), s)"
proof -
  have "findValidToken (H (token dto)) (clock env 0) (tokens s) = None"
    unfolding findValidToken_None_iff using assms(2) by blast
  with assms(1) show ?thesis
    by (simp add: resetPassword_def InvalidOrExpiredToken_def)
qed

text \<open>
  The three cases at the example state: an unknown secret, the stored token
  read after its expiry, and the stored token once it is used.
\<close>

theorem resetPassword_uniform_error_witness:
  "resetPassword exampleHash exampleEnv \<lparr>token = ''unknown'', newPassword = ''new''\<rparr> exampleSystem
     = (Inl (BadRequestException ''Invalid or expired reset token''), exampleSystem)
   \<and> resetPassword exampleHash exampleEnvExpired
        \<lparr>token = ''secret-0'', newPassword = ''new''\<rparr> exampleSystem
     = (Inl (BadRequestException ''Invalid or expired reset token''), exampleSystem)
   \<and> resetPassword exampleHash exampleEnv \<lparr>token = ''secret-0'', newPassword = ''new''\<rparr>
        (exampleSystem\<lparr>tokens := [exampleToken\<lparr>usedAt := Some 500\<rparr>]\<rparr>)
     = (Inl (BadRequestException ''Invalid or expired reset token''),
        exampleSystem\<lparr>tokens := [exampleToken\<lparr>usedAt := Some 500\<rparr>]\<rparr>)"
  using
    resetPassword_uniform_error [of exampleEnv exampleSystem exampleHash
      "\<lparr>token = ''unknown'', newPassword = ''new''\<rparr>"]
    resetPassword_uniform_error [of exampleEnvExpired exampleSystem exampleHash
      "\<lparr>token = ''secret-0'', newPassword = ''new''\<rparr>"]
    resetPassword_uniform_error [of exampleEnv
      "exampleSystem\<lparr>tokens := [exampleToken\<lparr>usedAt := Some 500\<rparr>]\<rparr>" exampleHash
      "\<lparr>token = ''secret-0'', newPassword = ''new''\<rparr>"]
  by (simp add: example_defs exampleEnvExpired_def)

text \<open>
  Claim C8. \<open>validateResetToken\<close> never changes the state, whatever rejects.
  When the lookup runs it returns the value of the specification's lookup
  predicate (a stored token with \<open>tokenHash = H(secret)\<close>, \<open>usedAt\<close> null and
  \<open>expiresAt > now\<close>), and \<open>resetPassword\<close> at the same clock fails with
  \<open>InvalidOrExpiredToken\<close> exactly when that predicate is false.
\<close>

theorem validateResetToken_same_lookup_read_only:
  "snd (validateResetToken H env tok s) = s \<and>
   (FindToken \<notin> rejects env \<longrightarrow>
      fst (validateResetToken H env tok s) = Inr (spec_lookup H tok (clock env 0) (tokens s)) \<and>
      (fst (resetPassword H env \<lparr>token = tok, newPassword = pw\<rparr> s) = Inl InvalidOrExpiredToken
         \<longleftrightarrow> \<not> spec_lookup H tok (clock env 0) (tokens s)))"
proof -
  have ro: "snd (validateResetToken H env tok s) = s"
    by (simp add: validateResetToken_def)
  have v: "fst (validateResetToken H env tok s) = Inr (spec_lookup H tok (clock env 0) (tokens s))"
    if "FindToken \<notin> rejects env"
    using that findValidToken_spec_lookup [of H tok "clock env 0" "tokens s"]
    by (simp add: validateResetToken_def)
  have c: "fst (resetPassword H env \<lparr>token = tok, newPassword = pw\<rparr> s) = Inl InvalidOrExpiredToken
         \<longleftrightarrow> \<not> spec_lookup H tok (clock env 0) (tokens s)"
    if "FindToken \<notin> rejects env"
    using that findValidToken_spec_lookup [of H tok "clock env 0" "tokens s"]
    by (auto simp: resetPassword_def InvalidOrExpiredToken_def Let_def split: option.splits)
  from ro v c show ?thesis by blast
qed

theorem validateResetToken_same_lookup_read_only_witness:
  "FindToken \<notin> rejects exampleEnv \<and>
   validateResetToken exampleHash exampleEnv ''secret-0'' exampleSystem = (Inr True, exampleSystem) \<and>
   fst (resetPassword exampleHash exampleEnv \<lparr>token = ''secret-0'', newPassword = ''new''\<rparr> exampleSystem)
     \<noteq> Inl InvalidOrExpiredToken"
  using validateResetToken_same_lookup_read_only
          [of exampleHash exampleEnv "''secret-0''" exampleSystem "''new''"]
  by (simp add: example_defs spec_lookup_def prod_eq_iff)

section \<open>Properties of the mail processor\<close>

subsection \<open>Scanning and matching\<close>

lemma brace_classes [simp]:
  "\<not> is_space CHR ''{''" "\<not> is_space CHR ''}''" "\<not> is_word CHR ''{''" "\<not> is_word CHR ''}''"
  by (simp_all add: is_space_def is_word_def)

lemma space_not_word: "is_space c \<Longrightarrow> \<not> is_word c"
  by (auto simp: is_space_def is_word_def Let_def)

lemma expand_plain_value: "plain_value v \<Longrightarrow> expand scanned matched rest v = v"
  by (induction scanned matched rest v rule: expand.induct) auto

text \<open>A stretch of text in which the pattern matches nowhere is copied.\<close>

lemma gsub_copy:
  "(\<And>i. i < length s \<Longrightarrow> m (drop i s @ rest) = None) \<Longrightarrow>
     gsub m v acc (s @ rest) = s @ gsub m v (acc @ s) rest"
proof (induction s arbitrary: acc)
  case Nil
  then show ?case by simp
next
  case (Cons c s)
  from Cons.prems [of 0] have m0: "m (c # s @ rest) = None" by simp
  have "\<And>i. i < length s \<Longrightarrow> m (drop i s @ rest) = None"
    using Cons.prems [of "Suc _"] by simp
  from Cons.IH [OF this, of "acc @ [c]"] m0 show ?case by simp
qed

lemma gsub_match:
  assumes "m (s @ rest) = Some (length s)" and "s \<noteq> []" and "plain_value v"
  shows "gsub m v acc (s @ rest) = v @ gsub m v (acc @ s) rest"
proof -
  from assms(2) obtain c cs where s: "s = c # cs" by (cases s) auto
  with assms(1) have "m (c # cs @ rest) = Some (Suc (length cs))" by simp
  then show ?thesis
    using s by (simp add: expand_plain_value [OF assms(3)])
qed

lemma match_key_needs_braces: "take 2 s \<noteq> ''{{'' \<Longrightarrow> match_key k s = None"
  by (simp add: match_key_def)

lemma match_unreplaced_needs_braces: "take 2 s \<noteq> ''{{'' \<Longrightarrow> match_unreplaced s = None"
  by (simp add: match_unreplaced_def)

lemma text_no_braces:
  assumes "CHR ''{'' \<notin> set t" and "i < length t"
  shows "take 2 (drop i t @ rest) \<noteq> ''{{''"
proof -
  from assms(2) obtain c cs where d: "drop i t = c # cs"
    by (cases "drop i t") auto
  then have "c \<in> set t" by (metis in_set_dropD list.set_intros(1))
  with assms(1) have "c \<noteq> CHR ''{''" by auto
  with d show ?thesis by (cases "cs @ rest") auto
qed

lemma after_key_alt:
  "after_key key r =
     (if take (length key) r = key then
        (if take 2 (dropWhile is_space (drop (length key) r)) = ''}}''
         then Some (length key + length (takeWhile is_space (drop (length key) r)) + 2)
         else None)
      else None)"
  by (simp add: after_key_def Let_def dropWhile_eq_drop)

lemma match_unreplaced_alt:
  "match_unreplaced s =
     (if take 2 s = ''{{'' then
        let r1 = dropWhile is_space (drop 2 s); r2 = dropWhile is_word r1
        in if takeWhile is_word r1 \<noteq> [] \<and> take 2 (dropWhile is_space r2) = ''}}''
           then Some (2 + length (takeWhile is_space (drop 2 s)) + length (takeWhile is_word r1)
                        + length (takeWhile is_space r2) + 2)
           else None
      else None)"
  by (simp add: match_unreplaced_def Let_def dropWhile_eq_drop)

lemma word_key_hd: "word_key k \<Longrightarrow> is_word (hd k) \<and> \<not> is_space (hd k)"
  using space_not_word by (cases k) (auto simp: word_key_def)

lemma backtrack_hit:
  "after_key k (drop n r) = Some x \<Longrightarrow> backtrack k r n = Some (n + x)"
  by (cases n) simp_all

lemma backtrack_miss:
  "(\<And>i. i \<le> n \<Longrightarrow> after_key k (drop i r) = None) \<Longrightarrow> backtrack k r n = None"
  by (induction n) simp_all

text \<open>
  After the first non-space character of a key that does not end in white space
  and holds no closing brace, the closing braces do not follow.
\<close>

lemma no_closing_after_spaces:
  assumes ne: "xs \<noteq> []" and last: "\<not> is_space (last xs)" and nb: "CHR ''}'' \<notin> set xs"
  shows "take 2 (dropWhile is_space (xs @ tail)) \<noteq> ''}}''"
proof -
  from ne last have ex: "last xs \<in> set xs" "\<not> is_space (last xs)" by simp_all
  then have d: "dropWhile is_space (xs @ tail) = dropWhile is_space xs @ tail"
    by simp
  from ex have "dropWhile is_space xs \<noteq> []"
    by (metis dropWhile_eq_Nil_conv)
  then obtain y ys where y: "dropWhile is_space xs = y # ys" by (cases "dropWhile is_space xs") auto
  then have "y \<in> set xs" by (metis list.set_intros(1) set_dropWhileD)
  with nb have "y \<noteq> CHR ''}''" by auto
  with d y show ?thesis by simp
qed

text \<open>Inside a placeholder no match begins.\<close>

lemma hole_interior:
  assumes wf: "well_formed (Hole a k b)" and i: "0 < i" "i < length (unparse (Hole a k b))"
  shows "take 2 (drop i (unparse (Hole a k b)) @ rest) \<noteq> ''{{''"
proof -
  let ?body = "a @ k @ b @ ''}}''"
  from wf have nb: "CHR ''{'' \<notin> set ?body"
    by auto
  show ?thesis
  proof (cases "i = 1")
    case True
    have "?body \<noteq> []" by simp
    then obtain y ys where y: "?body = y # ys" by (cases ?body) auto
    with nb have "y \<noteq> CHR ''{''" by (metis list.set_intros(1))
    moreover have "drop i (unparse (Hole a k b)) = CHR ''{'' # ?body"
      using True by simp
    ultimately show ?thesis using y by simp
  next
    case False
    with i obtain j where j: "i = Suc (Suc j)" "j < length ?body"
      by (cases i; cases "i - 1") auto
    then have "drop i (unparse (Hole a k b)) = drop j ?body" by simp
    with text_no_braces [OF nb j(2)] show ?thesis by simp
  qed
qed

lemma not_word_after_padding:
  assumes "\<forall>c\<in>set b. is_space c"
  shows "takeWhile is_word (b @ ''}}'' @ rest) = []"
proof (cases b)
  case Nil
  then show ?thesis by simp
next
  case (Cons c cs)
  with assms have "\<not> is_word c" by (simp add: space_not_word)
  with Cons show ?thesis by simp
qed

lemma match_unreplaced_word:
  assumes w: "word_key k" and a: "\<forall>c\<in>set a. is_space c" and b: "\<forall>c\<in>set b. is_space c"
  shows "match_unreplaced (''{{'' @ a @ k @ b @ ''}}'' @ rest)
           = Some (length (''{{'' @ a @ k @ b @ ''}}''))"
proof -
  from w have kne: "k \<noteq> []" and kw: "\<forall>c\<in>set k. is_word c" by (simp_all add: word_key_def)
  from kne obtain c cs where k: "k = c # cs" by (cases k) auto
  with word_key_hd [OF w] have c: "\<not> is_space c" by simp
  let ?tail = "b @ ''}}'' @ rest"
  have d1: "dropWhile is_space (a @ k @ ?tail) = k @ ?tail"
    using a c k by simp
  have t1: "takeWhile is_space (a @ k @ ?tail) = a"
    using a c k by simp
  have t2: "takeWhile is_word (k @ ?tail) = k"
    using kw not_word_after_padding [OF b, of rest] by simp
  have "dropWhile is_word (k @ ?tail) = dropWhile is_word ?tail"
    using kw by simp
  also have "\<dots> = ?tail"
    using not_word_after_padding [OF b, of rest]
    by (metis takeWhile_dropWhile_id append_Nil)
  finally have d2: "dropWhile is_word (k @ ?tail) = ?tail" .
  have t3: "takeWhile is_space ?tail = b" and d3: "dropWhile is_space ?tail = ''}}'' @ rest"
    using b by simp_all
  have "match_unreplaced (''{{'' @ (a @ k @ ?tail)) = Some (2 + length a + length k + length b + 2)"
    unfolding match_unreplaced_alt using d1 t1 t2 d2 t3 d3 kne by (simp add: Let_def)
  then show ?thesis by simp
qed

lemma match_unreplaced_other:
  assumes wf: "well_formed (Hole a k b)" and nw: "\<not> word_key k"
  shows "match_unreplaced (unparse (Hole a k b) @ rest) = None"
proof -
  from wf have a: "\<forall>c\<in>set a. is_space c" and b: "\<forall>c\<in>set b. is_space c"
    and nb: "CHR ''}'' \<notin> set k"
    and e: "k = [] \<or> (\<not> is_space (hd k) \<and> \<not> is_space (last k))"
    by simp_all
  let ?tail = "b @ ''}}'' @ rest"
  show ?thesis
  proof (cases "k = []")
    case True
    have "dropWhile is_space ((a @ b) @ ''}}'' @ rest) = ''}}'' @ rest"
      using a b by simp
    then have "takeWhile is_word (dropWhile is_space (a @ k @ ?tail)) = []"
      using True by simp
    then show ?thesis
      unfolding match_unreplaced_alt by (simp add: Let_def)
  next
    case False
    with e have hl: "\<not> is_space (hd k)" "\<not> is_space (last k)" by simp_all
    from False obtain c cs where k: "k = c # cs" by (cases k) auto
    from nw False obtain x where x: "x \<in> set k" "\<not> is_word x" by (auto simp: word_key_def)
    have d1: "dropWhile is_space (a @ k @ ?tail) = k @ ?tail"
      using a hl(1) k by simp
    have t2: "takeWhile is_word (k @ ?tail) = takeWhile is_word k"
      using x by simp
    have d2: "dropWhile is_word (k @ ?tail) = dropWhile is_word k @ ?tail"
      using x by simp
    have kr: "dropWhile is_word k \<noteq> []"
      using x by (metis dropWhile_eq_Nil_conv)
    have "last (dropWhile is_word k) = last k"
      using kr by (metis takeWhile_dropWhile_id last_appendR)
    with hl(2) have l: "\<not> is_space (last (dropWhile is_word k))" by simp
    have "CHR ''}'' \<notin> set (dropWhile is_word k)"
      using nb by (meson set_dropWhileD)
    from no_closing_after_spaces [OF kr l this]
    have "take 2 (dropWhile is_space (dropWhile is_word k @ ?tail)) \<noteq> ''}}''" .
    with d1 d2 show ?thesis
      unfolding match_unreplaced_alt by (simp add: Let_def)
  qed
qed

lemma take2_eq:
  assumes "take 2 s = [x, y]"
  shows "x # y # drop 2 s = s"
proof -
  have "take 2 s @ drop 2 s = s" by simp
  with assms show ?thesis by simp
qed

text \<open>Whatever the cleanup pattern matches is a placeholder with a word as its key.\<close>

lemma match_unreplaced_sound:
  assumes "match_unreplaced s = Some n"
  shows "\<exists>a w b rest. s = ''{{'' @ a @ w @ b @ ''}}'' @ rest
           \<and> n = length (''{{'' @ a @ w @ b @ ''}}'')
           \<and> (\<forall>c\<in>set a. is_space c) \<and> word_key w \<and> (\<forall>c\<in>set b. is_space c)"
proof -
  from assms have o: "take 2 s = ''{{''"
    by (simp add: match_unreplaced_def split: if_splits)
  let ?r = "drop 2 s"
  let ?a = "takeWhile is_space ?r"
  let ?r1 = "dropWhile is_space ?r"
  let ?w = "takeWhile is_word ?r1"
  let ?r2 = "dropWhile is_word ?r1"
  let ?b = "takeWhile is_space ?r2"
  let ?r3 = "dropWhile is_space ?r2"
  define C where "C \<longleftrightarrow> ?w \<noteq> [] \<and> take 2 ?r3 = ''}}''"
  define N where "N = 2 + length ?a + length ?w + length ?b + 2"
  have "match_unreplaced s = (if take 2 s = ''{{'' then if C then Some N else None else None)"
    unfolding match_unreplaced_alt Let_def C_def N_def ..
  with o have m: "match_unreplaced s = (if C then Some N else None)"
    by (simp only: if_True simp_thms)
  with assms have "C \<and> n = N"
    by (cases C) simp_all
  then have w: "?w \<noteq> []" and c: "take 2 ?r3 = ''}}''"
    and n: "n = 2 + length ?a + length ?w + length ?b + 2"
    unfolding C_def N_def by blast+
  have "''{{'' @ ?a @ ?w @ ?b @ ''}}'' @ drop 2 ?r3 = ''{{'' @ ?a @ ?w @ ?b @ ?r3"
    using take2_eq [of ?r3 "CHR ''}''" "CHR ''}''"] c by simp
  also have "\<dots> = ''{{'' @ ?r" by simp
  also have "\<dots> = s"
    using take2_eq [of s "CHR ''{''" "CHR ''{''"] o by simp
  finally have s: "s = ''{{'' @ ?a @ ?w @ ?b @ ''}}'' @ drop 2 ?r3" by (rule sym)
  have sa: "\<forall>c\<in>set ?a. is_space c" and sb: "\<forall>c\<in>set ?b. is_space c"
    and sw: "\<forall>c\<in>set ?w. is_word c"
    by (blast dest: set_takeWhileD)+
  from w sw have ww: "word_key ?w"
    unfolding word_key_def by (rule conjI)
  from n have n': "n = length (''{{'' @ ?a @ ?w @ ?b @ ''}}'')" by simp
  show ?thesis
    apply (rule exI [of _ ?a], rule exI [of _ ?w], rule exI [of _ ?b],
           rule exI [of _ "drop 2 ?r3"])
    apply (intro conjI)
        apply (rule s)
       apply (rule n')
      apply (rule sa)
     apply (rule ww)
    apply (rule sb)
    done
qed

subsection \<open>Text between placeholders\<close>

lemma quiet_Cons: "quiet (c # r) \<Longrightarrow> quiet r"
  by (cases r) simp_all

lemma quiet_append_right: "quiet (x @ y) \<Longrightarrow> quiet y"
  by (induction x) (simp_all add: quiet_Cons)

lemma quiet_append_left: "quiet (x @ y) \<Longrightarrow> quiet x"
proof (induction x rule: quiet.induct)
  case (1 c d r)
  then show ?case by simp
qed simp_all

lemma quiet_nth:
  "quiet q \<Longrightarrow> Suc i < length q \<Longrightarrow> \<not> (q ! i = CHR ''{'' \<and> q ! Suc i = CHR ''{'')"
proof (induction q arbitrary: i rule: quiet.induct)
  case (1 c d r)
  show ?case
  proof (cases i)
    case 0
    with 1 show ?thesis by simp
  next
    case (Suc j)
    with 1 show ?thesis by simp
  qed
qed simp_all


lemma run_position:
  assumes q: "quiet q" and i: "i < length q" and t: "tail = [] \<or> take 2 tail = ''{{''"
  shows "take 2 (drop i q @ tail) \<noteq> ''{{'' \<or> take 3 (drop i q @ tail) = ''{{{''"
proof (cases "Suc i < length q")
  case True
  then have "drop i q = q ! i # q ! Suc i # drop (Suc (Suc i)) q"
    by (simp add: Cons_nth_drop_Suc Suc_lessD)
  then have "take 2 (drop i q @ tail) = [q ! i, q ! Suc i]" by simp
  with quiet_nth [OF q True] show ?thesis by auto
next
  case False
  with i have "drop i q = [q ! i]"
    by (metis Cons_nth_drop_Suc Suc_lessI drop_all order_refl)
  then have d: "drop i q @ tail = q ! i # tail" by simp
  from t show ?thesis
  proof
    assume "tail = []"
    with d show ?thesis by simp
  next
    assume "take 2 tail = ''{{''"
    then obtain r where "tail = CHR ''{'' # CHR ''{'' # r"
      by (cases tail; cases "tl tail") auto
    with d show ?thesis by simp
  qed
qed

lemma run_no_match:
  assumes g2: "\<And>s. take 2 s \<noteq> ''{{'' \<Longrightarrow> m s = None"
    and g3: "\<And>s. take 3 s = ''{{{'' \<Longrightarrow> m s = None"
    and q: "quiet q" and i: "i < length q" and t: "tail = [] \<or> take 2 tail = ''{{''"
  shows "m (drop i q @ tail) = None"
  using run_position [OF q i t] g2 g3 by blast

lemma match_unreplaced_triple: "take 3 s = ''{{{'' \<Longrightarrow> match_unreplaced s = None"
proof -
  assume "take 3 s = ''{{{''"
  then obtain r where "s = CHR ''{'' # CHR ''{'' # CHR ''{'' # r"
    by (cases s; cases "tl s"; cases "tl (tl s)") auto
  then show ?thesis by (simp add: match_unreplaced_def)
qed

lemma literal_key_no_brace: "literal_key k \<Longrightarrow> CHR ''{'' \<notin> set k \<and> CHR ''}'' \<notin> set k"
  by (auto simp: literal_key_def regexp_syntax_characters_def)

lemma match_key_triple:
  assumes "literal_key k" and "take 3 s = ''{{{''"
  shows "match_key k s = None"
proof -
  from assms(2) obtain r where s: "s = CHR ''{'' # CHR ''{'' # CHR ''{'' # r"
    by (cases s; cases "tl s"; cases "tl (tl s)") auto
  have "after_key k (CHR ''{'' # r) = None"
  proof (cases k)
    case Nil
    then show ?thesis by (simp add: after_key_def)
  next
    case (Cons c cs)
    with literal_key_no_brace [OF assms(1)] have "c \<noteq> CHR ''{''" by auto
    with Cons show ?thesis by (simp add: after_key_def)
  qed
  with s show ?thesis by (simp add: match_key_def)
qed

lemma unparse_head_run:
  "\<exists>tail. concat (map unparse pieces) = head_run pieces @ tail \<and> (tail = [] \<or> take 2 tail = ''{{'')"
proof (induction pieces)
  case Nil
  then show ?case by simp
next
  case (Cons p pieces)
  then show ?case by (cases p) auto
qed

lemma gsub_text:
  assumes g2: "\<And>s. take 2 s \<noteq> ''{{'' \<Longrightarrow> m s = None"
    and g3: "\<And>s. take 3 s = ''{{{'' \<Longrightarrow> m s = None"
    and q: "quiet (t @ head_run pieces)"
  shows "gsub m v acc (t @ concat (map unparse pieces))
           = t @ gsub m v (acc @ t) (concat (map unparse pieces))"
proof (rule gsub_copy)
  fix i assume i: "i < length t"
  from unparse_head_run [of pieces] obtain tail where
    u: "concat (map unparse pieces) = head_run pieces @ tail" and t: "tail = [] \<or> take 2 tail = ''{{''"
    by blast
  from i have "i < length (t @ head_run pieces)" by simp
  from run_no_match [of m, OF g2 g3 q this t]
  have "m (drop i (t @ head_run pieces) @ tail) = None" .
  with i u show "m (drop i t @ concat (map unparse pieces)) = None" by simp
qed


lemma core_padded:
  assumes a: "\<forall>c\<in>set a. is_space c" and b: "\<forall>c\<in>set b. is_space c" and k: "trimmed k"
  shows "core (a @ k @ b) = k"
proof (cases "k = []")
  case True
  with a b have "\<forall>c\<in>set (a @ k @ b). is_space c" by auto
  then have d: "dropWhile is_space (a @ k @ b) = []"
    by (simp only: dropWhile_eq_Nil_conv)
  show ?thesis
    unfolding core_def d using True by simp
next
  case False
  with k have h: "\<not> is_space (hd k)" and l: "\<not> is_space (last k)"
    by (simp_all add: trimmed_def)
  from False obtain c cs where kc: "k = c # cs" by (cases k) auto
  with h have "\<not> is_space c" by simp
  with a kc have d: "dropWhile is_space (a @ k @ b) = k @ b" by simp
  from False have "rev k \<noteq> []" by simp
  then obtain y ys where ry: "rev k = y # ys" by (cases "rev k") auto
  with False have "y = last k" by (metis hd_rev list.sel(1))
  with l have y: "\<not> is_space y" by simp
  define b' where "b' = rev b"
  with b have "\<forall>c\<in>set b'. is_space c" by simp
  with y have "dropWhile is_space (b' @ y # ys) = y # ys" by simp
  then have "dropWhile is_space (rev (k @ b)) = rev k"
    unfolding rev_append b'_def ry .
  then show ?thesis
    unfolding core_def d by simp
qed

lemma before_closing:
  assumes "CHR ''}'' \<notin> set x"
  shows "takeWhile (\<lambda>c. c \<noteq> CHR ''}'') (x @ ''}}'' @ r) = x"
  using assms by (induction x) auto

lemma key_unique:
  assumes e: "a1 @ k1 @ b1 @ ''}}'' @ r1 = a2 @ k2 @ b2 @ ''}}'' @ r2"
    and a1: "\<forall>c\<in>set a1. is_space c" and b1: "\<forall>c\<in>set b1. is_space c"
    and a2: "\<forall>c\<in>set a2. is_space c" and b2: "\<forall>c\<in>set b2. is_space c"
    and k1: "trimmed k1" "CHR ''}'' \<notin> set k1" and k2: "trimmed k2" "CHR ''}'' \<notin> set k2"
  shows "k1 = k2"
proof -
  have n1: "CHR ''}'' \<notin> set (a1 @ k1 @ b1)"
    using a1 b1 k1(2) by auto
  have n2: "CHR ''}'' \<notin> set (a2 @ k2 @ b2)"
    using a2 b2 k2(2) by auto
  from e have "(a1 @ k1 @ b1) @ ''}}'' @ r1 = (a2 @ k2 @ b2) @ ''}}'' @ r2" by simp
  then have "takeWhile (\<lambda>c. c \<noteq> CHR ''}'') ((a1 @ k1 @ b1) @ ''}}'' @ r1)
           = takeWhile (\<lambda>c. c \<noteq> CHR ''}'') ((a2 @ k2 @ b2) @ ''}}'' @ r2)"
    by (rule arg_cong)
  then have "a1 @ k1 @ b1 = a2 @ k2 @ b2"
    unfolding before_closing [OF n1] before_closing [OF n2] .
  then have "core (a1 @ k1 @ b1) = core (a2 @ k2 @ b2)" by (rule arg_cong)
  then show ?thesis
    unfolding core_padded [OF a1 b1 k1(1)] core_padded [OF a2 b2 k2(1)] .
qed


lemma after_key_sound:
  assumes "after_key k x = Some n"
  shows "\<exists>b rest. x = k @ b @ ''}}'' @ rest \<and> (\<forall>c\<in>set b. is_space c)"
proof -
  let ?y = "drop (length k) x"
  let ?b = "takeWhile is_space ?y"
  let ?z = "dropWhile is_space ?y"
  from assms have t: "take (length k) x = k" and c: "take 2 ?z = ''}}''"
    by (simp_all add: after_key_alt split: if_splits)
  have "k @ ?b @ ''}}'' @ drop 2 ?z = k @ ?b @ ?z"
    using take2_eq [of ?z "CHR ''}''" "CHR ''}''"] c by simp
  also have "\<dots> = k @ ?y" by simp
  also have "\<dots> = take (length k) x @ ?y" by (simp only: t)
  also have "\<dots> = x" by simp
  finally have x: "x = k @ ?b @ ''}}'' @ drop 2 ?z" by (rule sym)
  have sb: "\<forall>c\<in>set ?b. is_space c"
    by (blast dest: set_takeWhileD)
  show ?thesis
    apply (rule exI [of _ ?b], rule exI [of _ "drop 2 ?z"])
    apply (rule conjI)
     apply (rule x)
    apply (rule sb)
    done
qed

lemma take_spaces:
  assumes "i \<le> length (takeWhile P r)"
  shows "\<forall>c\<in>set (take i r). P c"
proof -
  have "take i r = take i (takeWhile P r @ dropWhile P r)" by simp
  also have "\<dots> = take i (takeWhile P r)" using assms by (simp del: takeWhile_dropWhile_id)
  finally have "set (take i r) \<subseteq> set (takeWhile P r)"
    by (simp add: set_take_subset)
  then show ?thesis by (blast dest: set_takeWhileD)
qed

text \<open>The key of the pattern does not match a placeholder with another key.\<close>

lemma match_key_other_lit:
  assumes lit: "literal_key k" and tr: "trimmed k" and ne: "k' \<noteq> k"
    and wf: "well_formed (Hole a k' b)"
  shows "match_key k (unparse (Hole a k' b) @ rest) = None"
proof -
  from wf have a: "\<forall>c\<in>set a. is_space c" and b: "\<forall>c\<in>set b. is_space c"
    and nb: "CHR ''}'' \<notin> set k'" and tr': "trimmed k'"
    by (simp_all add: trimmed_def)
  let ?r = "a @ k' @ b @ ''}}'' @ rest"
  have "backtrack k ?r (length (takeWhile is_space ?r)) = None"
  proof (rule backtrack_miss)
    fix i assume i: "i \<le> length (takeWhile is_space ?r)"
    show "after_key k (drop i ?r) = None"
    proof (rule ccontr)
      assume "after_key k (drop i ?r) \<noteq> None"
      then obtain n where "after_key k (drop i ?r) = Some n" by blast
      from after_key_sound [OF this] obtain b1 r1 where
        d: "drop i ?r = k @ b1 @ ''}}'' @ r1" and b1: "\<forall>c\<in>set b1. is_space c"
        by blast
      have a1: "\<forall>c\<in>set (take i ?r). is_space c"
        using i by (rule take_spaces)
      have "take i ?r @ drop i ?r = ?r" by (rule append_take_drop_id)
      then have "take i ?r @ k @ b1 @ ''}}'' @ r1 = a @ k' @ b @ ''}}'' @ rest"
        unfolding d .
      from key_unique [OF this a1 b1 a b tr _ tr' nb] literal_key_no_brace [OF lit]
      have "k = k'" by blast
      with ne show False by simp
    qed
  qed
  then show ?thesis by (simp add: match_key_def)
qed

text \<open>The key of the pattern matches a placeholder with exactly this key.\<close>

lemma match_key_same_lit:
  assumes tr: "trimmed k" and a: "\<forall>c\<in>set a. is_space c" and b: "\<forall>c\<in>set b. is_space c"
  shows "match_key k (''{{'' @ a @ k @ b @ ''}}'' @ rest) = Some (length (''{{'' @ a @ k @ b @ ''}}''))"
proof -
  let ?r = "a @ k @ b @ ''}}'' @ rest"
  have tb: "takeWhile is_space (b @ ''}}'' @ rest) = b"
    and db: "dropWhile is_space (b @ ''}}'' @ rest) = ''}}'' @ rest"
    using b by simp_all
  have ak: "after_key k (k @ b @ ''}}'' @ rest) = Some (length k + length b + 2)"
    using tb db by (simp add: after_key_alt)
  show ?thesis
  proof (cases "k = []")
    case True
    have tw: "takeWhile is_space ((a @ b) @ ''}}'' @ rest) = a @ b"
      using a b by simp
    have "after_key [] (''}}'' @ rest) = Some 2"
      by (simp add: after_key_def)
    then have "after_key [] (drop (length (a @ b)) ((a @ b) @ ''}}'' @ rest)) = Some 2"
      by simp
    from backtrack_hit [OF this]
    have "backtrack [] ((a @ b) @ ''}}'' @ rest) (length (a @ b)) = Some (length (a @ b) + 2)" .
    with tw True show ?thesis
      by (simp add: match_key_def Let_def)
  next
    case False
    then obtain c cs where kc: "k = c # cs" by (cases k) auto
    with tr have c: "\<not> is_space c" by (simp add: trimmed_def)
    have tw: "takeWhile is_space ?r = a"
      using a c kc by simp
    from ak have "after_key k (drop (length a) ?r) = Some (length k + length b + 2)"
      by simp
    from backtrack_hit [OF this] have "backtrack k ?r (length a) = Some (length a + (length k + length b + 2))" .
    with tw show ?thesis
      by (simp add: match_key_def Let_def)
  qed
qed

subsection \<open>Substitution and cleanup on pieces\<close>

lemma removeUnreplaced_pieces_acc:
  "\<forall>p\<in>set pieces. well_formed p \<Longrightarrow>
     gsub match_unreplaced [] acc (concat (map unparse pieces)) = concat (map cleaned pieces)"
proof (induction pieces arbitrary: acc)
  case Nil
  then show ?case by (simp add: match_unreplaced_def)
next
  case (Cons p pieces)
  let ?rest = "concat (map unparse pieces)"
  have IH: "gsub match_unreplaced [] acc' ?rest = concat (map cleaned pieces)" for acc'
    using Cons by simp
  show ?case
  proof (cases p)
    case (Text t)
    with Cons.prems have nb: "CHR ''{'' \<notin> set t" by simp
    have "gsub match_unreplaced [] acc (t @ ?rest) = t @ gsub match_unreplaced [] (acc @ t) ?rest"
      by (rule gsub_copy) (rule match_unreplaced_needs_braces, rule text_no_braces [OF nb])
    with Text IH show ?thesis by simp
  next
    case (Hole a k b)
    with Cons.prems have wf: "well_formed (Hole a k b)" by simp
    let ?s = "unparse (Hole a k b)"
    show ?thesis
    proof (cases "word_key k")
      case True
      from wf have "match_unreplaced (?s @ ?rest) = Some (length ?s)"
        using match_unreplaced_word [OF True, of a b ?rest] by simp
      then have "gsub match_unreplaced [] acc (?s @ ?rest)
                   = [] @ gsub match_unreplaced [] (acc @ ?s) ?rest"
        by (rule gsub_match) simp_all
      with Hole True IH show ?thesis by simp
    next
      case False
      have "gsub match_unreplaced [] acc (?s @ ?rest) = ?s @ gsub match_unreplaced [] (acc @ ?s) ?rest"
      proof (rule gsub_copy)
        fix i assume i: "i < length ?s"
        show "match_unreplaced (drop i ?s @ ?rest) = None"
        proof (cases "i = 0")
          case True
          with match_unreplaced_other [OF wf False] show ?thesis by simp
        next
          case nz: False
          with hole_interior [OF wf _ i] show ?thesis
            by (intro match_unreplaced_needs_braces) simp
        qed
      qed
      with Hole False IH show ?thesis by simp
    qed
  qed
qed

lemma removeUnreplaced_pieces:
  "\<forall>p\<in>set pieces. well_formed p \<Longrightarrow>
     removeUnreplaced (concat (map unparse pieces)) = concat (map cleaned pieces)"
  by (simp add: removeUnreplaced_def removeUnreplaced_pieces_acc)

text \<open>The same on pieces whose text may hold braces.\<close>

lemma gsub_key_runs:
  assumes lit: "literal_key k" and tr: "trimmed k" and v: "plain_value v"
  shows "\<forall>p\<in>set pieces. placeholder p \<Longrightarrow> runs_quiet pieces \<Longrightarrow>
     gsub (match_key k) v acc (concat (map unparse pieces))
       = concat (map unparse (map (subst_piece k v) pieces))"
proof (induction pieces arbitrary: acc)
  case Nil
  then show ?case by (simp add: match_key_def)
next
  case (Cons p pieces)
  let ?rest = "concat (map unparse pieces)"
  from Cons.prems have rq: "runs_quiet pieces" by (cases p) simp_all
  have IH: "gsub (match_key k) v acc' ?rest = concat (map unparse (map (subst_piece k v) pieces))" for acc'
    using Cons.IH [OF _ rq] Cons.prems(1) by simp
  show ?case
  proof (cases p)
    case (Text t)
    with Cons.prems have q: "quiet (t @ head_run pieces)" by simp
    have "gsub (match_key k) v acc (t @ ?rest) = t @ gsub (match_key k) v (acc @ t) ?rest"
      by (rule gsub_text [OF match_key_needs_braces match_key_triple [OF lit] q])
    with Text IH show ?thesis by simp
  next
    case (Hole a k' b)
    with Cons.prems have wf: "well_formed (Hole a k' b)" by simp
    let ?s = "unparse (Hole a k' b)"
    show ?thesis
    proof (cases "k' = k")
      case True
      from wf have "match_key k (?s @ ?rest) = Some (length ?s)"
        using match_key_same_lit [OF tr, of a b ?rest] True by simp
      then have "gsub (match_key k) v acc (?s @ ?rest) = v @ gsub (match_key k) v (acc @ ?s) ?rest"
        by (rule gsub_match) (simp_all add: v)
      with Hole True IH show ?thesis by simp
    next
      case False
      have "gsub (match_key k) v acc (?s @ ?rest) = ?s @ gsub (match_key k) v (acc @ ?s) ?rest"
      proof (rule gsub_copy)
        fix i assume i: "i < length ?s"
        show "match_key k (drop i ?s @ ?rest) = None"
        proof (cases "i = 0")
          case True
          with match_key_other_lit [OF lit tr False wf] show ?thesis by simp
        next
          case nz: False
          with hole_interior [OF wf _ i] show ?thesis
            by (intro match_key_needs_braces) simp
        qed
      qed
      with Hole False IH show ?thesis by simp
    qed
  qed
qed

lemma removeUnreplaced_runs_acc:
  "\<forall>p\<in>set pieces. placeholder p \<Longrightarrow> runs_quiet pieces \<Longrightarrow>
     gsub match_unreplaced [] acc (concat (map unparse pieces)) = concat (map cleaned pieces)"
proof (induction pieces arbitrary: acc)
  case Nil
  then show ?case by (simp add: match_unreplaced_def)
next
  case (Cons p pieces)
  let ?rest = "concat (map unparse pieces)"
  from Cons.prems have rq: "runs_quiet pieces" by (cases p) simp_all
  have IH: "gsub match_unreplaced [] acc' ?rest = concat (map cleaned pieces)" for acc'
    using Cons.IH [OF _ rq] Cons.prems(1) by simp
  show ?case
  proof (cases p)
    case (Text t)
    with Cons.prems have q: "quiet (t @ head_run pieces)" by simp
    have "gsub match_unreplaced [] acc (t @ ?rest) = t @ gsub match_unreplaced [] (acc @ t) ?rest"
      by (rule gsub_text [OF match_unreplaced_needs_braces match_unreplaced_triple q])
    with Text IH show ?thesis by simp
  next
    case (Hole a k b)
    with Cons.prems have wf: "well_formed (Hole a k b)" by simp
    let ?s = "unparse (Hole a k b)"
    show ?thesis
    proof (cases "word_key k")
      case True
      from wf have "match_unreplaced (?s @ ?rest) = Some (length ?s)"
        using match_unreplaced_word [OF True, of a b ?rest] by simp
      then have "gsub match_unreplaced [] acc (?s @ ?rest)
                   = [] @ gsub match_unreplaced [] (acc @ ?s) ?rest"
        by (rule gsub_match) simp_all
      with Hole True IH show ?thesis by simp
    next
      case False
      have "gsub match_unreplaced [] acc (?s @ ?rest) = ?s @ gsub match_unreplaced [] (acc @ ?s) ?rest"
      proof (rule gsub_copy)
        fix i assume i: "i < length ?s"
        show "match_unreplaced (drop i ?s @ ?rest) = None"
        proof (cases "i = 0")
          case True
          with match_unreplaced_other [OF wf False] show ?thesis by simp
        next
          case nz: False
          with hole_interior [OF wf _ i] show ?thesis
            by (intro match_unreplaced_needs_braces) simp
        qed
      qed
      with Hole False IH show ?thesis by simp
    qed
  qed
qed

lemma head_run_subst:
  "\<exists>x. head_run (map (subst_piece k v) pieces) = head_run pieces @ x"
proof (induction pieces)
  case Nil
  then show ?case by simp
next
  case (Cons p pieces)
  then obtain x where x: "head_run (map (subst_piece k v) pieces) = head_run pieces @ x"
    by blast
  show ?case
  proof (cases p)
    case (Text t)
    with x have "head_run (map (subst_piece k v) (p # pieces)) = head_run (p # pieces) @ x"
      by simp
    then show ?thesis ..
  next
    case (Hole a k' b)
    then have "head_run (map (subst_piece k v) (p # pieces))
                 = head_run (p # pieces) @ head_run (map (subst_piece k v) (p # pieces))"
      by simp
    then show ?thesis ..
  qed
qed

lemma runs_quiet_subst:
  "runs_quiet (map (subst_piece k v) pieces) \<Longrightarrow> runs_quiet pieces"
proof (induction pieces)
  case Nil
  then show ?case by simp
next
  case (Cons p pieces)
  let ?h = "head_run (map (subst_piece k v) pieces)"
  from head_run_subst [of k v pieces] obtain x where x: "?h = head_run pieces @ x" by blast
  show ?case
  proof (cases p)
    case (Text t)
    with Cons.prems have q: "quiet (t @ ?h)" and r: "runs_quiet (map (subst_piece k v) pieces)"
      by simp_all
    from q have "quiet ((t @ head_run pieces) @ x)" unfolding x by simp
    then have "quiet (t @ head_run pieces)" by (rule quiet_append_left)
    with Text Cons.IH [OF r] show ?thesis by simp
  next
    case (Hole a k' b)
    show ?thesis
    proof (cases "k' = k")
      case True
      with Hole Cons.prems have q: "quiet (v @ ?h)" and r: "runs_quiet (map (subst_piece k v) pieces)"
        by simp_all
      from q have "quiet ?h" by (rule quiet_append_right)
      then have "quiet (head_run pieces @ x)" unfolding x .
      then have "quiet (head_run pieces)" by (rule quiet_append_left)
      with Hole Cons.IH [OF r] show ?thesis by simp
    next
      case False
      with Hole Cons.prems have q: "quiet ?h" and r: "runs_quiet (map (subst_piece k v) pieces)"
        by simp_all
      from q have "quiet (head_run pieces @ x)" unfolding x .
      then have "quiet (head_run pieces)" by (rule quiet_append_left)
      with Hole Cons.IH [OF r] show ?thesis by simp
    qed
  qed
qed

lemma runs_quiet_substitute:
  "runs_quiet (substitute_pieces ps pieces) \<Longrightarrow> runs_quiet pieces"
proof (induction ps arbitrary: pieces)
  case Nil
  then show ?case by simp
next
  case (Cons kv ps)
  obtain k v where kv: "kv = (k, v)" by (cases kv)
  with Cons.prems have "runs_quiet (substitute_pieces ps (map (subst_piece k v) pieces))" by simp
  from Cons.IH [OF this] show ?case by (rule runs_quiet_subst)
qed

lemma placeholder_subst: "placeholder p \<Longrightarrow> placeholder (subst_piece k v p)"
  by (cases p) simp_all

lemma replaceVariables_runs:
  assumes "\<forall>(k, v)\<in>set ps. literal_key k \<and> trimmed k \<and> plain_value v"
    and "\<forall>p\<in>set pieces. placeholder p"
    and "runs_quiet (substitute_pieces ps pieces)"
  shows "replaceVariables w ps (concat (map unparse pieces))
           = Some (concat (map unparse (substitute_pieces ps pieces)))
         \<and> (\<forall>p\<in>set (substitute_pieces ps pieces). placeholder p)"
  using assms
proof (induction ps arbitrary: pieces)
  case Nil
  then show ?case by simp
next
  case (Cons kv ps)
  obtain k v where kv: "kv = (k, v)" by (cases kv)
  with Cons.prems have k: "literal_key k" "trimmed k" "plain_value v" by simp_all
  have wf: "\<forall>p\<in>set (map (subst_piece k v) pieces). placeholder p"
    using Cons.prems(2) by (simp add: placeholder_subst)
  have rq': "runs_quiet (substitute_pieces ps (map (subst_piece k v) pieces))"
    using Cons.prems(3) kv by simp
  then have "runs_quiet (map (subst_piece k v) pieces)" by (rule runs_quiet_substitute)
  then have rq: "runs_quiet pieces" by (rule runs_quiet_subst)
  have "gsub (match_key k) v [] (concat (map unparse pieces))
       = concat (map unparse (map (subst_piece k v) pieces))"
    using gsub_key_runs [OF k Cons.prems(2) rq] .
  moreover have "\<forall>(k, v)\<in>set ps. literal_key k \<and> trimmed k \<and> plain_value v"
    using Cons.prems(1) by simp
  note Cons.IH [OF this wf rq']
  ultimately show ?case
    using kv k(1) by simp
qed

lemma render_piece_subst:
  "render_piece ps (subst_piece k v p) = render_piece ((k, v) # ps) p"
  by (cases p) auto

lemma cleaned_substitute_pieces:
  "concat (map cleaned (substitute_pieces ps pieces)) = render_spec ps pieces"
proof (induction ps arbitrary: pieces)
  case Nil
  have "cleaned p = render_piece [] p" for p by (cases p) simp_all
  then show ?case by (simp add: render_spec_def)
next
  case (Cons kv ps)
  obtain k v where kv: "kv = (k, v)" by (cases kv)
  from Cons.IH [of "map (subst_piece k v) pieces"] kv
  show ?case
    by (simp add: render_spec_def render_piece_subst comp_def)
qed

lemmas class_eval = is_space_def is_word_def word_key_def Let_def

subsection \<open>Attempts that fail\<close>

lemma process_runtime_fields:
  "jobName j' = jobName j \<Longrightarrow> jobData j' = jobData j \<Longrightarrow> process p w j' = process p w j"
  by (simp add: process_def handleSendEmail_def)

lemma handleBrevoError_retryable: "retryable (handleBrevoError err)"
  by (simp add: handleBrevoError_def Let_def)

lemma templateNotFound_retryable: "retryable (templateNotFound n)"
  by (simp add: templateNotFound_def)

text \<open>Every error \<open>process\<close> ends with is a plain \<open>Error\<close>.\<close>

lemma process_error_retryable:
  assumes "fst (process p w job) = Inl e"
  shows "retryable e"
proof (cases "jobName job = SEND_EMAIL")
  case False
  with assms show ?thesis by (simp add: process_def)
next
  case True
  let ?d = "asMailJobData (jobData job)"
  show ?thesis
  proof (cases "loadTemplate w (template ?d) (params ?d)")
    case (Inl e')
    then have "e' = templateNotFound (template ?d)"
      by (simp add: loadTemplate_def split: option.splits)
    with Inl True assms have "e = templateNotFound (template ?d)"
      by (simp add: process_def handleSendEmail_def Let_def)
    then show ?thesis by (simp add: templateNotFound_retryable)
  next
    case (Inr html)
    with True assms handleBrevoError_retryable show ?thesis
      by (auto simp: process_def handleSendEmail_def sendViaBrevo_def Let_def
               split: if_splits sum.splits prod.splits)
  qed
qed

lemma work_settled:
  "jobState job \<noteq> waiting \<Longrightarrow> jobState job \<noteq> delayed \<Longrightarrow> work p ws k job = Some job"
  by (cases k) simp_all

lemma work_add:
  "work p ws (k + l) job = (case work p ws k job of None \<Rightarrow> None | Some job' \<Rightarrow> work p ws l job')"
proof (induction k arbitrary: job)
  case 0
  then show ?case by simp
next
  case (Suc k)
  show ?case
  proof (cases "jobState job = waiting \<or> jobState job = delayed")
    case True
    with Suc show ?thesis by (simp split: option.splits)
  next
    case False
    then have "work p ws l job = Some job" by (simp add: work_settled)
    with False show ?thesis by simp
  qed
qed

lemma failing_step:
  assumes opts: "jobOpts j = DEFAULT_MAIL_JOB_OPTIONS"
    and st: "jobState j = waiting \<or> jobState j = delayed"
    and fails: "fst (process p (ws (attemptsMade j)) j) = Inl e"
  shows "work p ws (Suc k) j =
     (if Suc (attemptsMade j) < 5
      then work p ws k (j\<lparr>attemptsMade := Suc (attemptsMade j), jobState := delayed,
                           jobDelay := 3000 * 2 ^ attemptsMade j,
                           failedReason := Some (message e)\<rparr>)
      else Some (j\<lparr>attemptsMade := Suc (attemptsMade j), jobState := failed,
                    failedReason := Some (message e)\<rparr>))"
proof -
  have r: "retryable e" using fails by (rule process_error_retryable)
  have a: "attempt p (ws (attemptsMade j)) j =
     (if Suc (attemptsMade j) < 5
      then Some (j\<lparr>attemptsMade := Suc (attemptsMade j), jobState := delayed,
                           jobDelay := 3000 * 2 ^ attemptsMade j,
                           failedReason := Some (message e)\<rparr>)
      else Some (j\<lparr>attemptsMade := Suc (attemptsMade j), jobState := failed,
                    failedReason := Some (message e)\<rparr>))"
    using r fails opts
    by (simp add: attempt_def settle_def DEFAULT_MAIL_JOB_OPTIONS_def backoffDelay_def Let_def)
  show ?thesis
  proof (cases "Suc (attemptsMade j) < 5")
    case True
    with a st show ?thesis by simp
  next
    case False
    with a st show ?thesis by (simp add: work_settled)
  qed
qed

lemma afterFailures_fields [simp]:
  "jobName (afterFailures p ws job a) = jobName job"
  "jobData (afterFailures p ws job a) = jobData job"
  "jobOpts (afterFailures p ws job a) = jobOpts job"
  "attemptsMade (afterFailures p ws job a) = min a 5"
  "jobState (afterFailures p ws job a) = (if a < 5 then delayed else failed)"
  "jobDelay (afterFailures p ws job a) = 3000 * 2 ^ (min a 4 - 1)"
  "failedReason (afterFailures p ws job a) = Some (failureMessage p (ws (min a 5 - 1)) job)"
  by (simp_all add: afterFailures_def)

lemma afterFailures_ge5: "5 \<le> k \<Longrightarrow> afterFailures p ws job k = afterFailures p ws job 5"
  by (simp add: afterFailures_def min_def)

lemma step_fresh:
  assumes opts: "jobOpts job = DEFAULT_MAIL_JOB_OPTIONS"
    and fresh: "attemptsMade job = 0" "jobState job = waiting"
    and fails: "fst (process p (ws 0) job) = Inl e"
  shows "work p ws (Suc k) job = work p ws k (afterFailures p ws job 1)"
proof -
  have fm: "failureMessage p (ws 0) job = message e"
    using fails by (simp add: failureMessage_def)
  from fails fresh have "fst (process p (ws (attemptsMade job)) job) = Inl e" by simp
  from failing_step [where ws = ws and p = p and j = job and e = e and k = k, OF opts _ this] fresh fm
  show ?thesis by (simp add: afterFailures_def)
qed

lemma step_delayed:
  assumes opts: "jobOpts job = DEFAULT_MAIL_JOB_OPTIONS"
    and a: "0 < a" "a < 5"
    and fails: "fst (process p (ws a) job) = Inl e"
  shows "work p ws (Suc k) (afterFailures p ws job a) =
           (if Suc a < 5 then work p ws k (afterFailures p ws job (Suc a))
            else Some (afterFailures p ws job 5))"
proof -
  let ?j = "afterFailures p ws job a"
  have fm: "failureMessage p (ws a) job = message e"
    using fails by (simp add: failureMessage_def)
  have "process p (ws a) ?j = process p (ws a) job"
    by (rule process_runtime_fields) simp_all
  with fails a have pe: "fst (process p (ws (attemptsMade ?j)) ?j) = Inl e" by simp
  have o: "jobOpts ?j = DEFAULT_MAIL_JOB_OPTIONS" using opts by simp
  have s: "jobState ?j = waiting \<or> jobState ?j = delayed" using a by simp
  have am: "attemptsMade ?j = a" using a by simp
  have fs: "work p ws (Suc k) ?j =
     (if Suc a < 5
      then work p ws k (?j\<lparr>attemptsMade := Suc a, jobState := delayed,
                           jobDelay := 3000 * 2 ^ a, failedReason := Some (message e)\<rparr>)
      else Some (?j\<lparr>attemptsMade := Suc a, jobState := failed,
                    failedReason := Some (message e)\<rparr>))"
    using failing_step [where ws = ws and p = p and j = ?j and e = e and k = k, OF o s pe]
    unfolding am .
  show ?thesis
  proof (cases "Suc a < 5")
    case True
    have "?j\<lparr>attemptsMade := Suc a, jobState := delayed, jobDelay := 3000 * 2 ^ a,
              failedReason := Some (message e)\<rparr> = afterFailures p ws job (Suc a)"
      using True fm by (simp add: afterFailures_def min_def)
    with fs True show ?thesis by (simp only: if_True)
  next
    case False
    with a have a4: "a = 4" by simp
    have "?j\<lparr>attemptsMade := Suc a, jobState := failed,
              failedReason := Some (message e)\<rparr> = afterFailures p ws job 5"
      using a4 fm by (simp add: afterFailures_def)
    with fs False show ?thesis by (simp only: if_False)
  qed
qed

lemma from_delayed:
  assumes opts: "jobOpts job = DEFAULT_MAIL_JOB_OPTIONS"
    and fails: "\<And>n. \<exists>e. fst (process p (ws n) job) = Inl e"
  shows "0 < a \<Longrightarrow> a < 5 \<Longrightarrow>
           work p ws k (afterFailures p ws job a) = Some (afterFailures p ws job (a + k))"
proof (induction k arbitrary: a)
  case 0
  then show ?case by simp
next
  case (Suc k)
  from fails obtain e where e: "fst (process p (ws a) job) = Inl e" by blast
  show ?case
  proof (cases "Suc a < 5")
    case True
    with Suc.IH [of "Suc a"]
      step_delayed [where ws = ws and p = p and job = job and a = a and e = e and k = k,
        OF opts Suc.prems e]
    show ?thesis by simp
  next
    case False
    with Suc.prems have "5 \<le> a + Suc k" by simp
    from afterFailures_ge5 [OF this]
      step_delayed [where ws = ws and p = p and job = job and a = a and e = e and k = k,
        OF opts Suc.prems e] False
    show ?thesis by simp
  qed
qed

lemma failing_schedule:
  assumes opts: "jobOpts job = DEFAULT_MAIL_JOB_OPTIONS"
    and fresh: "attemptsMade job = 0" "jobState job = waiting"
    and fails: "\<And>n. \<exists>e. fst (process p (ws n) job) = Inl e"
    and k: "1 \<le> k"
  shows "work p ws k job = Some (afterFailures p ws job k)"
proof -
  from k obtain k' where k': "k = Suc k'" by (cases k) auto
  from fails obtain e where e: "fst (process p (ws 0) job) = Inl e" by blast
  have "work p ws (Suc k') job = work p ws k' (afterFailures p ws job 1)"
    using step_fresh [where ws = ws and p = p and job = job and e = e, OF opts fresh e] .
  also have "\<dots> = Some (afterFailures p ws job (1 + k'))"
    by (rule from_delayed [OF opts fails]) simp_all
  finally show ?thesis using k' by simp
qed

lemma deliveryFails_process:
  assumes "deliveryFails p w d" and "jobName job = SEND_EMAIL" and "jobData job = Mail d"
  shows "\<exists>e. fst (process p w job) = Inl e"
proof -
  from assms(1) obtain html err where
    l: "loadTemplate w (template d) (params d) = Inr html"
    and h: "httpPost w \<lparr>sender_name = senderName p, sender_email = senderEmail p,
                             to_email = to d, payload_subject = subject d,
                             payload_htmlContent = html\<rparr> = Inl err"
    and k: "apiKey p \<noteq> []"
    by (simp add: deliveryFails_def split: sum.splits)
  with assms(2,3) have "fst (process p w job) = Inl (handleBrevoError err)"
    by (simp add: process_def handleSendEmail_def sendViaBrevo_def Let_def)
  then show ?thesis ..
qed

lemma missing_template_process:
  assumes "templates w (template d) = None" and "jobName job = SEND_EMAIL" and "jobData job = Mail d"
  shows "process p w job = (Inl (templateNotFound (template d)), [ReadFile (template d)])"
  using assms by (simp add: process_def handleSendEmail_def loadTemplate_def Let_def)

lemma queue_add_fields [simp]:
  "jobName (queue_add i n d opts) = n"
  "jobData (queue_add i n d opts) = d"
  "jobOpts (queue_add i n d opts) = opts"
  "attemptsMade (queue_add i n d opts) = 0"
  "jobState (queue_add i n d opts) = waiting"
  by (simp_all add: queue_add_def)

lemma enqueueMail_queue:
  "mailQueue (enqueueMail dto s)
     = mailQueue s @ [queue_add (nextJobId s) SEND_EMAIL (Mail dto) DEFAULT_MAIL_JOB_OPTIONS]"
  by (cases dto) (simp add: enqueueMail_def Let_def)

lemma default_backoff:
  "backoffDelay (backoff DEFAULT_MAIL_JOB_OPTIONS) n = 3000 * 2 ^ (n - 1)"
  by (simp add: backoffDelay_def DEFAULT_MAIL_JOB_OPTIONS_def)

lemma schedule_delayed:
  assumes "\<And>k. 1 \<le> k \<Longrightarrow> work p ws k job = Some (afterFailures p ws job k)"
    and "1 \<le> k" "k < 5"
  shows "\<exists>j. work p ws k job = Some j \<and> jobState j = delayed \<and> attemptsMade j = k
            \<and> jobDelay j = 3000 * 2 ^ (k - 1)"
  using assms by (simp add: min_def)

lemma schedule_failed:
  assumes "\<And>k. 1 \<le> k \<Longrightarrow> work p ws k job = Some (afterFailures p ws job k)"
    and "5 \<le> k"
  shows "\<exists>j. work p ws k job = Some j \<and> jobState j = failed \<and> attemptsMade j = 5
            \<and> failedReason j = Some (failureMessage p (ws 4) job)
            \<and> runWorker p ws k [job] = [j]
            \<and> failedCount (getQueueStatus (runWorker p ws k [job])) = 1"
  using assms by (simp add: min_def runWorker_def getQueueStatus_def countState_def)

lemmas render_eval = loadTemplate_def literal_key_def regexp_syntax_characters_def
  match_key_def after_key_def removeUnreplaced_def match_unreplaced_def is_space_def is_word_def

lemma exampleProcessor_apiKey: "apiKey exampleProcessor = ''xkeysib-1''"
  by (simp add: exampleProcessor_def onModuleInit_def config_or_def)

subsection \<open>The claims on the mail queue\<close>

text \<open>
  Claim C5, as the code has it. A job of the default options whose template has
  no file ends every attempt with the plain error "Email template '...' not
  found", which the queue retries like any other failure: after each of the
  first four attempts the job is delayed, by 3 s, 6 s, 12 s and 24 s, and after
  the fifth it is failed with that error as its reason.
\<close>

theorem missing_template_is_retried:
  assumes missing: "\<forall>n. templates (ws n) (template dto) = None"
    and job: "job = queue_add i SEND_EMAIL (Mail dto) DEFAULT_MAIL_JOB_OPTIONS"
  shows "(\<forall>n. process p (ws n) job
            = (Inl (templateNotFound (template dto)), [ReadFile (template dto)]))
    \<and> retryable (templateNotFound (template dto))
    \<and> (\<forall>k. 1 \<le> k \<and> k < 5 \<longrightarrow>
          (\<exists>j. work p ws k job = Some j \<and> jobState j = delayed \<and> attemptsMade j = k
               \<and> jobDelay j = 3000 * 2 ^ (k - 1)))
    \<and> (\<forall>k. 5 \<le> k \<longrightarrow>
          (\<exists>j. work p ws k job = Some j \<and> jobState j = failed \<and> attemptsMade j = 5
               \<and> failedReason j = Some (message (templateNotFound (template dto)))))"
proof -
  have pr: "process p (ws n) job = (Inl (templateNotFound (template dto)), [ReadFile (template dto)])"
    for n
    using missing job by (intro missing_template_process) simp_all
  then have f: "\<exists>e. fst (process p (ws n) job) = Inl e" for n by simp
  have sched: "work p ws k job = Some (afterFailures p ws job k)" if "1 \<le> k" for k
    using that f job by (intro failing_schedule) simp_all
  have fm: "failureMessage p (ws 4) job = message (templateNotFound (template dto))"
    using pr [of 4] by (simp add: failureMessage_def)
  from pr templateNotFound_retryable [of "template dto"]
    schedule_delayed [of p ws job, OF sched] schedule_failed [of p ws job, OF sched] fm
  show ?thesis by (simp only:) blast
qed

theorem missing_template_is_retried_witness:
  "(\<forall>n. templates (exampleWorlds n) (template (exampleDto\<lparr>template := ''absent''\<rparr>)) = None)
   \<and> (\<exists>j. work exampleProcessor exampleWorlds 5 exampleJobAbsent = Some j \<and> jobState j = failed
          \<and> attemptsMade j = 5)"
proof -
  have m: "\<forall>n. templates (exampleWorlds n) (template (exampleDto\<lparr>template := ''absent''\<rparr>)) = None"
    by (simp add: exampleWorlds_def exampleWorld_def exampleDto_def)
  from missing_template_is_retried [OF m exampleJobAbsent_def, of exampleProcessor]
  have "\<forall>k. 5 \<le> k \<longrightarrow>
          (\<exists>j. work exampleProcessor exampleWorlds k exampleJobAbsent = Some j \<and> jobState j = failed
               \<and> attemptsMade j = 5
               \<and> failedReason j
                   = Some (message (templateNotFound (template (exampleDto\<lparr>template := ''absent''\<rparr>)))))"
    by (elim conjE)
  from this [rule_format, of 5]
  have "\<exists>j. work exampleProcessor exampleWorlds 5 exampleJobAbsent = Some j \<and> jobState j = failed
          \<and> attemptsMade j = 5"
    by auto
  with m show ?thesis by blast
qed

text \<open>
  Claim C5 as stated fails: after exactly one attempt a job whose template does
  not resolve is delayed for a retry, not failed.
\<close>

theorem missing_template_not_fatal_counterexample:
  "templates exampleWorld ''absent'' = None
   \<and> work exampleProcessor exampleWorlds 1 exampleJobAbsent
       = Some (exampleJobAbsent\<lparr>attemptsMade := 1, jobState := delayed, jobDelay := 3000,
                  failedReason := Some (message (templateNotFound ''absent''))\<rparr>)"
  by (simp add: exampleWorlds_def exampleWorld_def exampleJobAbsent_def exampleDto_def
        queue_add_def SEND_EMAIL_def DEFAULT_MAIL_JOB_OPTIONS_def attempt_def settle_def
        process_def handleSendEmail_def loadTemplate_def backoffDelay_def templateNotFound_def)

text \<open>
  Claim C6. \<open>enqueueMail\<close> appends a job with 5 attempts and exponential backoff
  of base 3000 ms, whose delay for attempt \<open>n\<close> is \<open>3000 * 2^(n-1)\<close>, strictly
  increasing in \<open>n\<close>. When the delivery call fails on every attempt, the job is
  delayed with that delay after each of the attempts 1 to 4, and after the fifth
  it is failed, its reason recorded, and it stays in the queue, where
  \<open>getQueueStatus\<close> counts it as failed.
\<close>

theorem delivery_failure_retry_schedule:
  assumes fails: "\<forall>n. deliveryFails p (ws n) dto"
    and job: "job = queue_add (nextJobId s) SEND_EMAIL (Mail dto) DEFAULT_MAIL_JOB_OPTIONS"
  shows "mailQueue (enqueueMail dto s) = mailQueue s @ [job]
    \<and> attempts (jobOpts job) = 5
    \<and> (\<forall>n. 1 \<le> n \<longrightarrow>
          backoffDelay (backoff (jobOpts job)) n = 3000 * 2 ^ (n - 1)
          \<and> backoffDelay (backoff (jobOpts job)) n < backoffDelay (backoff (jobOpts job)) (Suc n))
    \<and> (\<forall>k. 1 \<le> k \<and> k < 5 \<longrightarrow>
          (\<exists>j. work p ws k job = Some j \<and> jobState j = delayed \<and> attemptsMade j = k
               \<and> jobDelay j = 3000 * 2 ^ (k - 1)))
    \<and> (\<forall>k. 5 \<le> k \<longrightarrow>
          (\<exists>j. work p ws k job = Some j \<and> jobState j = failed \<and> attemptsMade j = 5
               \<and> failedReason j = Some (failureMessage p (ws 4) job)
               \<and> runWorker p ws k [job] = [j]
               \<and> failedCount (getQueueStatus (runWorker p ws k [job])) = 1))"
proof -
  have f: "\<exists>e. fst (process p (ws n) job) = Inl e" for n
    using fails job by (intro deliveryFails_process [of p "ws n" dto]) simp_all
  have sched: "work p ws k job = Some (afterFailures p ws job k)" if "1 \<le> k" for k
    using that f job by (intro failing_schedule) simp_all
  have q: "mailQueue (enqueueMail dto s) = mailQueue s @ [job]"
    using job by (simp add: enqueueMail_queue)
  have a: "attempts (jobOpts job) = 5"
    using job by (simp add: DEFAULT_MAIL_JOB_OPTIONS_def)
  have b: "\<forall>n. 1 \<le> n \<longrightarrow>
          backoffDelay (backoff (jobOpts job)) n = 3000 * 2 ^ (n - 1)
          \<and> backoffDelay (backoff (jobOpts job)) n < backoffDelay (backoff (jobOpts job)) (Suc n)"
  proof (intro allI impI)
    fix n :: nat assume "1 \<le> n"
    then obtain m where "n = Suc m" by (cases n) auto
    then show "backoffDelay (backoff (jobOpts job)) n = 3000 * 2 ^ (n - 1)
          \<and> backoffDelay (backoff (jobOpts job)) n < backoffDelay (backoff (jobOpts job)) (Suc n)"
      using job by (simp add: default_backoff)
  qed
  from q a b schedule_delayed [of p ws job, OF sched] schedule_failed [of p ws job, OF sched]
  show ?thesis by blast
qed

theorem delivery_failure_retry_schedule_witness:
  "(\<forall>n. deliveryFails exampleProcessor (exampleWorlds n) exampleDto)
   \<and> mailQueue (enqueueMail exampleDto exampleSystem) = [exampleJob]
   \<and> (\<exists>j. work exampleProcessor exampleWorlds 2 exampleJob = Some j \<and> jobState j = delayed
          \<and> attemptsMade j = 2 \<and> jobDelay j = 6000)
   \<and> (\<exists>j. work exampleProcessor exampleWorlds 5 exampleJob = Some j \<and> jobState j = failed
          \<and> attemptsMade j = 5)
   \<and> failedCount (getQueueStatus (runWorker exampleProcessor exampleWorlds 5 [exampleJob])) = 1"
proof -
  have l: "loadTemplate exampleWorld (template exampleDto) (params exampleDto) = Inr ''Hi Ana, code ''"
    by (simp add: exampleDto_def exampleWorld_def render_eval)
  have f: "\<forall>n. deliveryFails exampleProcessor (exampleWorlds n) exampleDto"
    unfolding deliveryFails_def exampleWorlds_def l
    by (simp add: exampleProcessor_apiKey) (simp add: exampleWorld_def)
  have j: "exampleJob = queue_add (nextJobId exampleSystem) SEND_EMAIL (Mail exampleDto)
             DEFAULT_MAIL_JOB_OPTIONS"
    by (simp add: exampleJob_def exampleSystem_def)
  have q: "mailQueue exampleSystem = []"
    by (simp add: exampleSystem_def)
  note t = delivery_failure_retry_schedule [OF f j]
  from t q have e: "mailQueue (enqueueMail exampleDto exampleSystem) = [exampleJob]"
    by simp
  from t have "\<forall>k. 1 \<le> k \<and> k < 5 \<longrightarrow>
          (\<exists>j. work exampleProcessor exampleWorlds k exampleJob = Some j \<and> jobState j = delayed
               \<and> attemptsMade j = k \<and> jobDelay j = 3000 * 2 ^ (k - 1))"
    by (elim conjE)
  from this [rule_format, of 2]
  have d: "\<exists>j. work exampleProcessor exampleWorlds 2 exampleJob = Some j \<and> jobState j = delayed
          \<and> attemptsMade j = 2 \<and> jobDelay j = 6000"
    by simp
  from t have "\<forall>k. 5 \<le> k \<longrightarrow>
          (\<exists>j. work exampleProcessor exampleWorlds k exampleJob = Some j \<and> jobState j = failed
               \<and> attemptsMade j = 5
               \<and> failedReason j = Some (failureMessage exampleProcessor (exampleWorlds 4) exampleJob)
               \<and> runWorker exampleProcessor exampleWorlds k [exampleJob] = [j]
               \<and> failedCount (getQueueStatus (runWorker exampleProcessor exampleWorlds k [exampleJob])) = 1)"
    by (elim conjE)
  from this [rule_format, of 5]
  have g: "(\<exists>j. work exampleProcessor exampleWorlds 5 exampleJob = Some j \<and> jobState j = failed
          \<and> attemptsMade j = 5)
     \<and> failedCount (getQueueStatus (runWorker exampleProcessor exampleWorlds 5 [exampleJob])) = 1"
    by auto
  from f e d g show ?thesis by blast
qed

text \<open>
  Claim C7, as the code has it. Take a template of text and well-formed
  placeholders, and a mapping whose keys hold no RegExp syntax character and are
  trimmed and whose values are plain, such that in the template with the mapped
  placeholders replaced by their values two opening braces in a row occur only
  where a placeholder begins. Then \<open>loadTemplate\<close> returns the rendering of
  the specification and no error: every placeholder whose key is in the mapping
  is replaced by its value, every other placeholder whose key is a word is
  removed, and a placeholder whose key is neither in the mapping nor a word
  stays as written. The text may hold braces, a key may hold any other
  character, and a value may hold braces and dollar signs. The witness is the
  template \<open>Hi {{firstName}}, code {{code}}\<close> with \<open>{firstName: "Ana"}\<close>,
  which renders \<open>Hi Ana, code \<close>, and a template with a style sheet, keys
  that are not words and values with a brace and a dollar sign.
\<close>

theorem loadTemplate_renders_template:
  assumes "templates w name = Some (concat (map unparse pieces))"
    and "\<forall>p\<in>set pieces. placeholder p"
    and "\<forall>(k, v)\<in>set ps. literal_key k \<and> trimmed k \<and> plain_value v"
    and "runs_quiet (substitute_pieces ps pieces)"
  shows "loadTemplate w name (Some ps) = Inr (render_spec ps pieces)
         \<and> loadTemplate w name None = Inr (render_spec [] pieces)"
proof -
  from replaceVariables_runs [OF assms(3,2,4), of w]
  have r: "replaceVariables w ps (concat (map unparse pieces))
           = Some (concat (map unparse (substitute_pieces ps pieces)))"
    and wf: "\<forall>p\<in>set (substitute_pieces ps pieces). placeholder p"
    by simp_all
  have "removeUnreplaced (concat (map unparse (substitute_pieces ps pieces))) = render_spec ps pieces"
    using removeUnreplaced_runs_acc [OF wf assms(4)] cleaned_substitute_pieces
    by (simp add: removeUnreplaced_def)
  with r assms(1) have a: "loadTemplate w name (Some ps) = Inr (render_spec ps pieces)"
    by (simp add: loadTemplate_def)
  have rq: "runs_quiet pieces" using assms(4) by (rule runs_quiet_substitute)
  have "removeUnreplaced (concat (map unparse pieces)) = render_spec [] pieces"
    using removeUnreplaced_runs_acc [OF assms(2) rq] cleaned_substitute_pieces [of "[]" pieces]
    by (simp add: removeUnreplaced_def)
  with assms(1) have b: "loadTemplate w name None = Inr (render_spec [] pieces)"
    by (simp add: loadTemplate_def)
  from a b show ?thesis ..
qed

theorem loadTemplate_renders_template_witness:
  "templates exampleWorld ''greeting'' = Some ''Hi {{firstName}}, code {{code}}''
   \<and> loadTemplate exampleWorld ''greeting'' (Some [(''firstName'', ''Ana'')]) = Inr ''Hi Ana, code ''
   \<and> loadTemplate exampleWorld ''styled''
         (Some [(''first-name'', ''{Ana}''), (''user name'', ''Lee''), (''amount'', ''Ca$h'')])
       = Inr ''<style>p { color: red }</style>Dear {Ana} Lee, pay Ca$h {{user.code}}''"
proof -
  let ?pieces = "[Text ''Hi '', Hole [] ''firstName'' [], Text '', code '', Hole [] ''code'' []]"
  let ?ps = "[(''firstName'', ''Ana'')]"
  have t: "templates exampleWorld ''greeting'' = Some (concat (map unparse ?pieces))"
    by (simp add: exampleWorld_def)
  have wf: "\<forall>p\<in>set ?pieces. placeholder p"
    by (simp add: class_eval)
  have ps: "\<forall>(k, v)\<in>set ?ps. literal_key k \<and> trimmed k \<and> plain_value v"
    by (simp add: literal_key_def regexp_syntax_characters_def trimmed_def is_space_def)
  have rq: "runs_quiet (substitute_pieces ?ps ?pieces)"
    by simp
  have r: "render_spec ?ps ?pieces = ''Hi Ana, code ''"
    by (simp add: render_spec_def class_eval)
  let ?pieces' = "[Text ''<style>p { color: red }</style>Dear '', Hole [] ''first-name'' [],
                   Text '' '', Hole '' '' ''user name'' '' '', Text '', pay '',
                   Hole [] ''amount'' [], Text '' '', Hole [] ''code'' [], Hole [] ''user.code'' []]"
  let ?ps' = "[(''first-name'', ''{Ana}''), (''user name'', ''Lee''), (''amount'', ''Ca$h'')]"
  have t': "templates exampleWorld ''styled'' = Some (concat (map unparse ?pieces'))"
    by (simp add: exampleWorld_def)
  have wf': "\<forall>p\<in>set ?pieces'. placeholder p"
    by (simp add: class_eval)
  have ps': "\<forall>(k, v)\<in>set ?ps'. literal_key k \<and> trimmed k \<and> plain_value v"
    by (simp add: literal_key_def regexp_syntax_characters_def trimmed_def is_space_def)
  have rq': "runs_quiet (substitute_pieces ?ps' ?pieces')"
    by simp
  have r': "render_spec ?ps' ?pieces'
              = ''<style>p { color: red }</style>Dear {Ana} Lee, pay Ca$h {{user.code}}''"
    by (simp add: render_spec_def class_eval)
  from loadTemplate_renders_template [OF t wf ps rq]
       loadTemplate_renders_template [OF t' wf' ps' rq'] t r r'
  show ?thesis by simp
qed

text \<open>
  Claim C7 as stated fails: the placeholder \<open>{{user.code}}\<close>, left unresolved
  after the substitution, is not removed.
\<close>

theorem loadTemplate_leaves_placeholder_counterexample:
  "templates exampleWorld ''dotted'' = Some ''Hi {{firstName}}, code {{user.code}}''
   \<and> loadTemplate exampleWorld ''dotted'' (Some [(''firstName'', ''Ana'')])
     = Inr ''Hi Ana, code {{user.code}}''
   \<and> loadTemplate exampleWorld ''dotted'' (Some [(''firstName'', ''Ana'')])
     \<noteq> Inr ''Hi Ana, code ''"
  by (simp add: loadTemplate_def exampleWorld_def literal_key_def regexp_syntax_characters_def
      match_key_def after_key_def removeUnreplaced_def match_unreplaced_def is_space_def is_word_def)

text \<open>
  Outside the hypotheses on the mapping the result need not be the rendering:
  a value that is a replacement pattern or a placeholder, a key padded with
  white space, and a key that the RegExp constructor rejects.
\<close>

lemma loadTemplate_outside_the_hypotheses:
  "loadTemplate exampleWorld ''greeting'' (Some [(''firstName'', ''$&'')]) = Inr ''Hi , code ''
   \<and> loadTemplate exampleWorld ''greeting'' (Some [(''firstName'', ''{{Ana}}'')]) = Inr ''Hi , code ''
   \<and> loadTemplate exampleWorld ''notice'' (Some [('' code'', ''7'')])
       = Inr ''Dear {{first-name}} {{user name}}, 7''
   \<and> loadTemplate exampleWorld ''greeting'' (Some [(''('', ''Ana'')])
       = Inl (templateNotFound ''greeting'')"
  by (simp add: loadTemplate_def exampleWorld_def literal_key_def regexp_syntax_characters_def
      match_key_def after_key_def removeUnreplaced_def match_unreplaced_def is_space_def is_word_def)

text \<open>
  Claim C9. Whatever the cleanup pattern matches, anywhere, is a placeholder
  whose key, between optional white space, is a word. At a well-formed
  placeholder the pattern matches exactly when the key is a word, and then it
  matches the whole placeholder. So the cleanup of
  a template of well-formed pieces removes the word-key placeholders and leaves
  every other placeholder, such as \<open>{{first-name}}\<close> and \<open>{{user name}}\<close>, as
  written, and so does \<open>loadTemplate\<close> without parameters.
\<close>

theorem removeUnreplaced_only_word_keys:
  "(match_unreplaced s = Some n \<longrightarrow>
      (\<exists>a w b rest. s = ''{{'' @ a @ w @ b @ ''}}'' @ rest
         \<and> n = length (''{{'' @ a @ w @ b @ ''}}'')
         \<and> (\<forall>c\<in>set a. is_space c) \<and> word_key w \<and> (\<forall>c\<in>set b. is_space c)))
   \<and> (well_formed (Hole a k b) \<longrightarrow>
      match_unreplaced (unparse (Hole a k b) @ rest)
        = (if word_key k then Some (length (unparse (Hole a k b))) else None))
   \<and> ((\<forall>p\<in>set pieces. well_formed p) \<longrightarrow>
      removeUnreplaced (concat (map unparse pieces)) = concat (map cleaned pieces)
      \<and> (templates w name = Some (concat (map unparse pieces)) \<longrightarrow>
           loadTemplate w name None = Inr (concat (map cleaned pieces))))"
proof (intro conjI impI)
  assume "match_unreplaced s = Some n"
  then show "\<exists>a w b rest. s = ''{{'' @ a @ w @ b @ ''}}'' @ rest
         \<and> n = length (''{{'' @ a @ w @ b @ ''}}'')
         \<and> (\<forall>c\<in>set a. is_space c) \<and> word_key w \<and> (\<forall>c\<in>set b. is_space c)"
    by (rule match_unreplaced_sound)
next
  assume wf: "well_formed (Hole a k b)"
  show "match_unreplaced (unparse (Hole a k b) @ rest)
        = (if word_key k then Some (length (unparse (Hole a k b))) else None)"
  proof (cases "word_key k")
    case True
    with wf match_unreplaced_word [OF True, of a b rest] show ?thesis by simp
  next
    case False
    with match_unreplaced_other [OF wf False] show ?thesis by simp
  qed
next
  assume "\<forall>p\<in>set pieces. well_formed p"
  then show r: "removeUnreplaced (concat (map unparse pieces)) = concat (map cleaned pieces)"
    by (rule removeUnreplaced_pieces)
  assume "templates w name = Some (concat (map unparse pieces))"
  with r show "loadTemplate w name None = Inr (concat (map cleaned pieces))"
    by (simp add: loadTemplate_def)
qed

theorem removeUnreplaced_only_word_keys_witness:
  "removeUnreplaced ''Dear {{first-name}} {{user name}}, {{ code }}''
     = ''Dear {{first-name}} {{user name}}, ''
   \<and> loadTemplate exampleWorld ''notice'' None = Inr ''Dear {{first-name}} {{user name}}, ''
   \<and> match_unreplaced ''{{first-name}}'' = None
   \<and> match_unreplaced ''{{user name}}'' = None
   \<and> match_unreplaced ''{{ code }}'' = Some 10"
proof -
  let ?pieces = "[Text ''Dear '', Hole [] ''first-name'' [], Text '' '', Hole [] ''user name'' [],
                  Text '', '', Hole '' '' ''code'' '' '']"
  have wf: "\<forall>p\<in>set ?pieces. well_formed p"
    by (simp add: class_eval)
  have nw: "\<not> word_key ''first-name''" "\<not> word_key ''user name''" "word_key ''code''"
    by (simp_all add: class_eval)
  have t: "templates exampleWorld ''notice'' = Some (concat (map unparse ?pieces))"
    by (simp add: exampleWorld_def)
  note inst = removeUnreplaced_only_word_keys
    [where pieces = ?pieces and w = exampleWorld and name = "''notice''" and rest = "[]"]
  from inst [where a = "[]" and k = "''first-name''" and b = "[]"]
       inst [where a = "[]" and k = "''user name''" and b = "[]"]
       inst [where a = "'' ''" and k = "''code''" and b = "'' ''"] wf nw t
  show ?thesis by (simp add: is_space_def)
qed

text \<open>
  Claim C10. For a job whose name is not \<open>send-email\<close>, \<open>process\<close> returns
  normally and neither reads a template nor posts anything; the attempt
  therefore completes the job, which is purged when its options say
  \<open>removeOnComplete\<close>.
\<close>

theorem unknown_job_name_completes:
  assumes "jobName job \<noteq> SEND_EMAIL"
  shows "process p w job = (Inr (), [])
    \<and> attempt p w job =
        (if removeOnComplete (jobOpts job) then None
         else Some (job\<lparr>attemptsMade := Suc (attemptsMade job), jobState := completed\<rparr>))
    \<and> (jobState job = waiting \<and> removeOnComplete (jobOpts job) \<longrightarrow>
          runWorker p ws (Suc k) [job] = [])"
  using assms by (simp add: process_def attempt_def settle_def runWorker_def)

theorem unknown_job_name_completes_witness:
  "jobName exampleJobUnknown \<noteq> SEND_EMAIL
   \<and> process exampleProcessor exampleWorld exampleJobUnknown = (Inr (), [])
   \<and> attempt exampleProcessor exampleWorld exampleJobUnknown = None
   \<and> runWorker exampleProcessor exampleWorlds 1 [exampleJobUnknown] = []"
proof -
  have n: "jobName exampleJobUnknown \<noteq> SEND_EMAIL"
    by (simp add: exampleJobUnknown_def SEND_EMAIL_def)
  have o: "jobState exampleJobUnknown = waiting" "removeOnComplete (jobOpts exampleJobUnknown)"
    by (simp_all add: exampleJobUnknown_def DEFAULT_MAIL_JOB_OPTIONS_def)
  from unknown_job_name_completes [OF n, of exampleProcessor exampleWorld exampleWorlds 0] n o
  show ?thesis by simp
qed
end
